theory Spec2Isabelle
  imports Main "HOL-Library.Multiset" "HOL-Library.Product_Lexorder"
begin

section \<open>Edges and their order\<close>

text \<open>
  The C \<open>int\<close> is modelled by \<^typ>\<open>int\<close>, and \<open>int32\<close> is the value that 32-bit
  arithmetic gives: the subtractions of \<open>cmp_edges\<close>, the indices \<open>i * N + j\<close> of the adjacency
  matrix, the row numbers \<open>procRank * nbRows + i\<close> and the buffer sizes of the parallel
  algorithms are wrapped with it. Wrapping the whole of a sum of products is the same as
  wrapping each operation. Loop counters only count up to an \<open>int\<close> bound, and three times
  the number of edges of a message or of ranks is far from the bound.

  The fields \<open>i\<close>, \<open>j\<close>, \<open>w\<close> of \<open>struct Edge\<close> are \<open>ei\<close>, \<open>ej\<close>, \<open>ew\<close>: the plain
  letters stay free for the loop counters of the source.
\<close>

record Edge =
  ei :: int
  ej :: int
  ew :: int

definition int32 :: "int \<Rightarrow> int" where
  "int32 x = signed_take_bit 31 x"

definition is_int32 :: "int \<Rightarrow> bool" where
  "is_int32 x = (- (2 ^ 31) \<le> x \<and> x < 2 ^ 31)"

definition init_edge :: "int \<Rightarrow> int \<Rightarrow> int \<Rightarrow> Edge" where
  "init_edge i j w =
     \<lparr>ei = (if i < j then i else j), ej = (if j > i then j else i), ew = w\<rparr>"

definition cmp_edges :: "Edge \<Rightarrow> Edge \<Rightarrow> int" where
  "cmp_edges a b =
     (if ew a \<noteq> ew b then int32 (ew a - ew b)
      else if ei a \<noteq> ei b then int32 (ei a - ei b)
      else int32 (ej a - ej b))"

text \<open>The order of the specification: lower weight first, then lower i, then lower j.\<close>

definition edge_before :: "Edge \<Rightarrow> Edge \<Rightarrow> bool" where
  "edge_before a b =
     (ew a < ew b \<or> (ew a = ew b \<and> (ei a < ei b \<or> (ei a = ei b \<and> ej a < ej b))))"

text \<open>A canonical edge of a graph with \<open>N\<close> vertices: a non-negative int weight and
  endpoints in \<open>[0, N)\<close>.\<close>

definition canonical :: "int \<Rightarrow> Edge \<Rightarrow> bool" where
  "canonical N e =
     (0 \<le> ew e \<and> is_int32 (ew e) \<and> 0 \<le> ei e \<and> ei e < N \<and> 0 \<le> ej e \<and> ej e < N)"

section \<open>Dispatch by algorithm name\<close>

text \<open>
  \<open>computeMST\<close> up to the call of the selected algorithm: what the rank prints before the
  tree, whether it calls \<open>MPI_Abort\<close>, and which algorithm it runs. \<open>MPI_Abort\<close> ends the
  process group, so nothing runs after it. \<open>printf_d\<close> is the \<open>%d\<close> conversion of \<open>printf\<close>.
\<close>

datatype algorithm = Prim_seq | Kruskal_seq | Prim_par | Kruskal_par

record dispatch =
  diagnostics :: string
  aborted :: bool
  ran :: "algorithm option"

definition digit_char :: "nat \<Rightarrow> char" where
  "digit_char d = ''0123456789'' ! d"

fun digits :: "nat \<Rightarrow> string" where
  "digits n = (if n < 10 then [digit_char n] else digits (n div 10) @ [digit_char (n mod 10)])"

declare digits.simps [simp del]

definition printf_d :: "int \<Rightarrow> string" where
  "printf_d n = (if n < 0 then CHR ''-'' # digits (nat (- n)) else digits (nat n))"

definition newline :: char where
  "newline = CHR 0x0A"

definition computeMST :: "string \<Rightarrow> int \<Rightarrow> int \<Rightarrow> dispatch" where
  "computeMST algoName procRank numProcs =
     (if algoName = ''prim-seq'' then
        (if procRank = 0 \<and> numProcs \<noteq> 1
         then \<lparr>diagnostics = ''ERROR: Sequential algorithm is ran with '' @ printf_d numProcs
                  @ '' MPI processes.'' @ [newline], aborted = True, ran = None\<rparr>
         else \<lparr>diagnostics = [], aborted = False, ran = Some Prim_seq\<rparr>)
      else if algoName = ''kruskal-seq'' then
        (if procRank = 0 \<and> numProcs \<noteq> 1
         then \<lparr>diagnostics = ''ERROR: Sequential algorithm is ran with '' @ printf_d numProcs
                  @ '' MPI processes.'' @ [newline], aborted = True, ran = None\<rparr>
         else \<lparr>diagnostics = [], aborted = False, ran = Some Kruskal_seq\<rparr>)
      else if algoName = ''prim-par'' then
        \<lparr>diagnostics = [], aborted = False, ran = Some Prim_par\<rparr>
      else if algoName = ''kruskal-par'' then
        \<lparr>diagnostics = [], aborted = False, ran = Some Kruskal_par\<rparr>
      else
        (if procRank = 0
         then \<lparr>diagnostics = ''ERROR: Invalid algorithm name: '' @ algoName @ ''.'' @ [newline],
                aborted = True, ran = None\<rparr>
         else \<lparr>diagnostics = [], aborted = False, ran = None\<rparr>))"

section \<open>The disjoint-set forest and \<open>union_find\<close>\<close>

text \<open>
  Arrays are lists; an index outside the array is undefined behaviour in C and \<open>None\<close>
  here. \<open>find\<close> of the source is \<open>find_node\<close> (\<open>find\<close> is a list function of HOL). Its
  recursion follows the father pointers and does not return on a cycle, so it is a
  partial function whose result is \<open>None\<close> when it does not return. It returns the
  array with the compressed path and the root.
\<close>

record Node =
  father :: int
  rank :: int

definition create_nodes :: "int \<Rightarrow> Node list" where
  "create_nodes N = map (\<lambda>node. \<lparr>father = int node, rank = 1\<rparr>) [0..<nat N]"

partial_function (option) find_node :: "Node list \<Rightarrow> int \<Rightarrow> (Node list \<times> int) option" where
  "find_node nodes node =
     (if 0 \<le> node \<and> nat node < length nodes then
        (if father (nodes ! nat node) \<noteq> node then
           Option.bind (find_node nodes (father (nodes ! nat node)))
             (\<lambda>(nodes', r). Some (nodes'[nat node := (nodes' ! nat node)\<lparr>father := r\<rparr>], r))
         else Some (nodes, father (nodes ! nat node)))
      else None)"

declare find_node.simps [code]

function fusion :: "Node list \<Rightarrow> int \<Rightarrow> int \<Rightarrow> Node list option" where
  "fusion nodes root1 root2 =
     (if 0 \<le> root1 \<and> nat root1 < length nodes \<and> 0 \<le> root2 \<and> nat root2 < length nodes then
        (if rank (nodes ! nat root1) > rank (nodes ! nat root2) then fusion nodes root2 root1
         else
           (let nodes1 = nodes[nat root1 := (nodes ! nat root1)\<lparr>father := root2\<rparr>] in
            if rank (nodes1 ! nat root1) = rank (nodes1 ! nat root2)
            then Some (nodes1[nat root2 :=
                         (nodes1 ! nat root2)\<lparr>rank := rank (nodes1 ! nat root2) + 1\<rparr>])
            else Some nodes1))
      else None)"
  by pat_completeness auto
termination
  by (relation "measure (\<lambda>(nodes, root1, root2).
        if rank (nodes ! nat root1) > rank (nodes ! nat root2) then 1 else 0)") auto

declare fusion.simps [simp del]

function union_find_loop ::
  "Edge list \<Rightarrow> int \<Rightarrow> int \<Rightarrow> Node list \<Rightarrow> int \<Rightarrow> int \<Rightarrow> Edge list \<Rightarrow> (int \<times> Edge list) option" where
  "union_find_loop edges N M nodes edge numEdge tree =
     (if edge < M \<and> numEdge < N - 1 then
        (if 0 \<le> edge \<and> nat edge < length edges then
           (case find_node nodes (ei (edges ! nat edge)) of
              None \<Rightarrow> None
            | Some (nodes1, root1) \<Rightarrow>
                (case find_node nodes1 (ej (edges ! nat edge)) of
                   None \<Rightarrow> None
                 | Some (nodes2, root2) \<Rightarrow>
                     if root1 \<noteq> root2 then
                       (case fusion nodes2 root1 root2 of
                          None \<Rightarrow> None
                        | Some nodes3 \<Rightarrow>
                            if 0 \<le> numEdge \<and> nat numEdge < length tree
                            then union_find_loop edges N M nodes3 (edge + 1) (numEdge + 1)
                                   (tree[nat numEdge := edges ! nat edge])
                            else None)
                     else union_find_loop edges N M nodes2 (edge + 1) numEdge tree))
         else None)
      else Some (numEdge, tree))"
  by pat_completeness auto
termination
  by (relation "measure (\<lambda>(edges, N, M, nodes, edge, numEdge, tree). nat (M - edge))") auto

declare union_find_loop.simps [simp del]

definition union_find :: "Edge list \<Rightarrow> int \<Rightarrow> int \<Rightarrow> Edge list \<Rightarrow> (int \<times> Edge list) option" where
  "union_find edges N M tree = union_find_loop edges N M (create_nodes N) 0 0 tree"

text \<open>
  The specification of \<open>union_find\<close>: two vertices are joined by a list of edges when a
  path of these edges connects them; the edges are taken in order, an edge is emitted when
  its endpoints are not joined by the edges emitted before it, and nothing is emitted
  once \<open>N - 1\<close> edges are.
\<close>

definition joined :: "Edge list \<Rightarrow> int \<Rightarrow> int \<Rightarrow> bool" where
  "joined T a b \<longleftrightarrow>
     (a, b) \<in> ((\<lambda>e. (ei e, ej e)) ` set T \<union> (\<lambda>e. (ej e, ei e)) ` set T)\<^sup>*"

fun select_edges :: "int \<Rightarrow> Edge list \<Rightarrow> Edge list \<Rightarrow> Edge list" where
  "select_edges N acc [] = acc"
| "select_edges N acc (e # es) =
     (if int (length acc) < N - 1
      then (if joined acc (ei e) (ej e) then select_edges N acc es
            else select_edges N (acc @ [e]) es)
      else acc)"

section \<open>Sequential Kruskal\<close>

text \<open>
  The adjacency matrix is the flat row-major array of the source: entry \<open>(i, j)\<close> is
  \<open>adj[i*N+j]\<close>, with the index computed in 32 bits. A read outside the matrix and a
  write past the end of the edge buffer are \<open>None\<close>.
\<close>

function create_edges_row ::
  "int \<Rightarrow> int list \<Rightarrow> int \<Rightarrow> int \<Rightarrow> Edge list \<Rightarrow> int \<Rightarrow> (Edge list \<times> int) option" where
  "create_edges_row N adj i j edges numEdge =
     (if j < N then
        (if 0 \<le> int32 (i * N + j) \<and> nat (int32 (i * N + j)) < length adj then
           (if adj ! nat (int32 (i * N + j)) \<noteq> 0 then
              (if 0 \<le> numEdge \<and> nat numEdge < length edges
               then create_edges_row N adj i (j + 1)
                      (edges[nat numEdge := init_edge i j (adj ! nat (int32 (i * N + j)))])
                      (numEdge + 1)
               else None)
            else create_edges_row N adj i (j + 1) edges numEdge)
         else None)
      else Some (edges, numEdge))"
  by pat_completeness auto
termination
  by (relation "measure (\<lambda>(N, adj, i, j, edges, numEdge). nat (N - j))") auto

declare create_edges_row.simps [simp del]

function create_edges_loop ::
  "int \<Rightarrow> int list \<Rightarrow> int \<Rightarrow> Edge list \<Rightarrow> int \<Rightarrow> (Edge list \<times> int) option" where
  "create_edges_loop N adj i edges numEdge =
     (if i < N then
        (case create_edges_row N adj i i edges numEdge of
           None \<Rightarrow> None
         | Some (edges', numEdge') \<Rightarrow> create_edges_loop N adj (i + 1) edges' numEdge')
      else Some (edges, numEdge))"
  by pat_completeness auto
termination
  by (relation "measure (\<lambda>(N, adj, i, edges, numEdge). nat (N - i))") auto

declare create_edges_loop.simps [simp del]

definition create_edges :: "int \<Rightarrow> int list \<Rightarrow> Edge list \<Rightarrow> (Edge list \<times> int) option" where
  "create_edges N adj edges = create_edges_loop N adj 0 edges 0"

text \<open>
  \<open>qsort\<close> is the C library's. With a comparison that is a total order in which only
  identical elements compare equal, as \<open>cmp_edges\<close> is on edges with non-negative int
  fields, every sorting algorithm yields the same array; it is modelled by insertion
  sort of the first \<open>nmemb\<close> elements.
\<close>

fun insort_cmp :: "('a \<Rightarrow> 'a \<Rightarrow> int) \<Rightarrow> 'a \<Rightarrow> 'a list \<Rightarrow> 'a list" where
  "insort_cmp compar x [] = [x]"
| "insort_cmp compar x (y # ys) =
     (if compar x y \<le> 0 then x # y # ys else y # insort_cmp compar x ys)"

definition sort_cmp :: "('a \<Rightarrow> 'a \<Rightarrow> int) \<Rightarrow> 'a list \<Rightarrow> 'a list" where
  "sort_cmp compar xs = foldr (insort_cmp compar) xs []"

definition qsort :: "'a list \<Rightarrow> int \<Rightarrow> ('a \<Rightarrow> 'a \<Rightarrow> int) \<Rightarrow> 'a list" where
  "qsort base nmemb compar = sort_cmp compar (take (nat nmemb) base) @ drop (nat nmemb) base"

definition zero_edge :: Edge where
  "zero_edge = \<lparr>ei = 0, ej = 0, ew = 0\<rparr>"

text \<open>\<open>calloc(n, sizeof(Edge))\<close>: \<open>n\<close> zeroed edges.\<close>

definition calloc_edges :: "int \<Rightarrow> Edge list" where
  "calloc_edges n = replicate (nat n) zero_edge"

definition sequential_kruskal ::
  "int \<Rightarrow> int \<Rightarrow> int list \<Rightarrow> Edge list \<Rightarrow> (int \<times> Edge list) option" where
  "sequential_kruskal N M adj tree =
     (if M < 0 then None
      else case create_edges N adj (calloc_edges M) of
        None \<Rightarrow> None
      | Some (edges, cnt) \<Rightarrow> union_find (qsort edges M cmp_edges) N M tree)"

text \<open>The edges of the graph as \<open>create_edges\<close> reads them: the non-zero entries of the
  upper triangle, row by row.\<close>

definition row_edges :: "nat \<Rightarrow> int list \<Rightarrow> nat \<Rightarrow> nat \<Rightarrow> Edge list" where
  "row_edges n adj i j0 =
     map (\<lambda>j. init_edge (int i) (int j) (adj ! (i * n + j)))
       (filter (\<lambda>j. adj ! (i * n + j) \<noteq> 0) [j0..<n])"

definition upper_edges :: "nat \<Rightarrow> int list \<Rightarrow> Edge list" where
  "upper_edges n adj = concat (map (\<lambda>i. row_edges n adj i i) [0..<n])"

section \<open>The binary heap of sequential Prim\<close>

text \<open>
  Slot numbers are natural numbers (\<open>father\<close>, \<open>left\<close> and \<open>right\<close> of the source are
  \<open>hfather\<close>, \<open>hleft\<close> and \<open>hright\<close>). An access outside \<open>data\<close> is \<open>None\<close>, and so is the
  decrement of \<open>curEnd\<close> below 0 in \<open>extract_min\<close>, after which the source would read
  \<open>data[-1]\<close>. The sift-down loop of \<open>extract_min\<close> starts at slot 1 and only moves to
  children; it is not defined for slot 0.
\<close>

record Heap =
  sizeMax :: int
  curEnd :: nat
  data :: "Edge list"





definition hfather :: "nat \<Rightarrow> nat" where
  "hfather i = i div 2"

definition hleft :: "nat \<Rightarrow> nat" where
  "hleft i = 2 * i"

definition hright :: "nat \<Rightarrow> nat" where
  "hright i = 2 * i + 1"

definition swap_edges :: "Edge list \<Rightarrow> nat \<Rightarrow> nat \<Rightarrow> Edge list" where
  "swap_edges d a b = d[a := d ! b, b := d ! a]"

function add_edge_loop :: "Edge list \<Rightarrow> nat \<Rightarrow> Edge list option" where
  "add_edge_loop d node =
     (if hfather node \<noteq> 0 then
        (if node < length d then
           (if cmp_edges (d ! hfather node) (d ! node) > 0
            then add_edge_loop (swap_edges d (hfather node) node) (hfather node)
            else Some d)
         else None)
      else Some d)"
  by pat_completeness auto
termination
  by (relation "measure (\<lambda>(d, node). node)") (auto simp: hfather_def)

declare add_edge_loop.simps [simp del]

definition add_edge :: "Heap \<Rightarrow> Edge \<Rightarrow> Heap option" where
  "add_edge heap edge =
     (if curEnd heap < length (data heap) then
        (case add_edge_loop ((data heap)[curEnd heap := edge]) (curEnd heap) of
           None \<Rightarrow> None
         | Some d \<Rightarrow> Some (heap\<lparr>curEnd := curEnd heap + 1, data := d\<rparr>))
      else None)"

function extract_min_loop :: "Edge list \<Rightarrow> nat \<Rightarrow> nat \<Rightarrow> Edge list option" where
  "extract_min_loop d cur node =
     (if node = 0 then None
      else if hleft node < cur then
        (if cur \<le> length d then
           (let next = (if hright node < cur
                           \<and> cmp_edges (d ! hleft node) (d ! hright node) > 0
                        then hright node else hleft node)
            in if cmp_edges (d ! node) (d ! next) < 0 then Some d
               else extract_min_loop (swap_edges d node next) cur next)
         else None)
      else Some d)"
  by pat_completeness auto
termination
  by (relation "measure (\<lambda>(d, cur, node). cur - node)")
     (auto simp: hleft_def hright_def)

declare extract_min_loop.simps [simp del]

definition extract_min :: "Heap \<Rightarrow> (Edge \<times> Heap) option" where
  "extract_min heap =
     (if 1 < length (data heap) \<and> 0 < curEnd heap \<and> curEnd heap - 1 < length (data heap) then
        (case extract_min_loop (swap_edges (data heap) 1 (curEnd heap - 1))
                (curEnd heap - 1) 1 of
           None \<Rightarrow> None
         | Some d \<Rightarrow> Some (data heap ! 1, heap\<lparr>curEnd := curEnd heap - 1, data := d\<rparr>))
      else None)"

definition nonneg_edge :: "Edge \<Rightarrow> bool" where
  "nonneg_edge e \<longleftrightarrow> canonical (2 ^ 31) e"

section \<open>Parallel Kruskal, phase 0: the local forest\<close>

text \<open>
  Every parallel routine addresses its \<open>adj\<close> argument by the local row: the entry that it
  takes for row \<open>real_i = procRank * nbRows + i\<close> and column \<open>j\<close> is \<open>adj[i*N + j]\<close>. The
  products are computed in 32 bits.
\<close>

function add_local_edges_row ::
  "int \<Rightarrow> int list \<Rightarrow> int \<Rightarrow> int \<Rightarrow> int \<Rightarrow> int \<Rightarrow> Edge list \<Rightarrow> int \<Rightarrow> (Edge list \<times> int) option" where
  "add_local_edges_row procRank adj nbRows N i j edges numEdge =
     (if j \<le> int32 (procRank * nbRows + i) then
        (if 0 \<le> int32 (i * N + j) \<and> nat (int32 (i * N + j)) < length adj then
           (if adj ! nat (int32 (i * N + j)) = 0
            then add_local_edges_row procRank adj nbRows N i (j + 1) edges numEdge
            else if 0 \<le> numEdge \<and> nat numEdge < length edges
            then add_local_edges_row procRank adj nbRows N i (j + 1)
                   (edges[nat numEdge :=
                      init_edge (int32 (procRank * nbRows + i)) j
                        (adj ! nat (int32 (i * N + j)))])
                   (numEdge + 1)
            else None)
         else None)
      else Some (edges, numEdge))"
  by pat_completeness auto
termination
  by (relation "measure (\<lambda>(procRank, adj, nbRows, N, i, j, edges, numEdge).
        nat (int32 (procRank * nbRows + i) + 1 - j))") auto

declare add_local_edges_row.simps [simp del]

function add_local_edges_loop ::
  "int \<Rightarrow> int list \<Rightarrow> int \<Rightarrow> int \<Rightarrow> int \<Rightarrow> Edge list \<Rightarrow> int \<Rightarrow> (Edge list \<times> int) option" where
  "add_local_edges_loop procRank adj nbRows N i edges numEdge =
     (if i < nbRows then
        (if int32 (procRank * nbRows + i) \<ge> N then Some (edges, numEdge)
         else
           (case add_local_edges_row procRank adj nbRows N i (int32 (procRank * nbRows))
                   edges numEdge of
              None \<Rightarrow> None
            | Some (edges', numEdge') \<Rightarrow>
                add_local_edges_loop procRank adj nbRows N (i + 1) edges' numEdge'))
      else Some (edges, numEdge))"
  by pat_completeness auto
termination
  by (relation "measure (\<lambda>(procRank, adj, nbRows, N, i, edges, numEdge). nat (nbRows - i))") auto

declare add_local_edges_loop.simps [simp del]

definition add_local_edges ::
  "int \<Rightarrow> int list \<Rightarrow> int \<Rightarrow> int \<Rightarrow> Edge list \<Rightarrow> (Edge list \<times> int) option" where
  "add_local_edges procRank adj nbRows N edges =
     add_local_edges_loop procRank adj nbRows N 0 edges 0"

definition create_forest ::
  "int \<Rightarrow> int list \<Rightarrow> int \<Rightarrow> int \<Rightarrow> Edge list \<Rightarrow> (int \<times> Edge list) option" where
  "create_forest procRank adj nbRows N forest =
     (if int32 (nbRows * nbRows) < 0 then None
      else case add_local_edges procRank adj nbRows N
                  (calloc_edges (int32 (nbRows * nbRows))) of
        None \<Rightarrow> None
      | Some (edges, nbEdges) \<Rightarrow> union_find (qsort edges nbEdges cmp_edges) N nbEdges forest)"

text \<open>
  The rows \<open>[r * nbRows, min ((r + 1) * nbRows) N)\<close> of the \<open>N \<times> N\<close> matrix \<open>G\<close>, the row block
  of rank \<open>r\<close>, as an array of their own: in it the global row \<open>r * nbRows + i\<close> is the local
  row \<open>i\<close>.
\<close>

definition row_block :: "int list \<Rightarrow> nat \<Rightarrow> nat \<Rightarrow> nat \<Rightarrow> int list" where
  "row_block G N nbRows r = take (nbRows * N) (drop (r * nbRows * N) G)"

text \<open>The non-zero entries \<open>G[u][v]\<close> with both \<open>u\<close> and \<open>v\<close> in the row block of rank \<open>r\<close>
  and \<open>v \<le> u\<close>, as edges with their global endpoints and their weight.\<close>

definition block_row_edges :: "int list \<Rightarrow> nat \<Rightarrow> nat \<Rightarrow> nat \<Rightarrow> Edge list" where
  "block_row_edges G N u v0 =
     map (\<lambda>v. \<lparr>ei = int v, ej = int u, ew = G ! (u * N + v)\<rparr>)
       (filter (\<lambda>v. G ! (u * N + v) \<noteq> 0) [v0..<Suc u])"

definition block_edges :: "int list \<Rightarrow> nat \<Rightarrow> nat \<Rightarrow> nat \<Rightarrow> Edge list" where
  "block_edges G N nbRows r =
     concat (map (\<lambda>u. block_row_edges G N u (r * nbRows))
                 [r * nbRows..<min ((r + 1) * nbRows) N])"

section \<open>Sequential Prim\<close>










section \<open>Parallel Prim\<close>

text \<open>
  A \<open>BorderNode\<close> holds, for a vertex of the rank's row block, the weight \<open>w\<close> and the tree
  endpoint \<open>z\<close> of its best edge into the tree (fields \<open>bw\<close> and \<open>bz\<close>); weight 0 stands for
  no edge. Every rank runs the same code on its own arrays: \<open>adj\<close> is the array that the
  rank is given, read by the local row (\<open>adj[y*N + newVertex]\<close> for the vertex
  \<open>procRank * nbRows + y\<close>), \<open>isVisited\<close> has an entry for each of the \<open>N\<close> vertices. The row
  numbers and the indices of \<open>adj\<close> are computed in 32 bits. An access outside an array and
  the failure of the assertion of \<open>select_new_vertex\<close> are the result \<open>None\<close>.
\<close>

record BorderNode =
  bw :: int
  bz :: int

function create_border_loop ::
  "int \<Rightarrow> int \<Rightarrow> int \<Rightarrow> int list \<Rightarrow> BorderNode list \<Rightarrow> int \<Rightarrow> BorderNode list option" where
  "create_border_loop procRank nbRows N adj border y =
     (if y < nbRows then
        (if int32 (procRank * nbRows + y) \<ge> N then Some border
         else if 0 \<le> int32 (y * N) \<and> nat (int32 (y * N)) < length adj
                 \<and> 0 \<le> y \<and> nat y < length border then
           create_border_loop procRank nbRows N adj
             (border[nat y := \<lparr>bw = adj ! nat (int32 (y * N)), bz = 0\<rparr>]) (y + 1)
         else None)
      else Some border)"
  by pat_completeness auto
termination
  by (relation "measure (\<lambda>(procRank, nbRows, N, adj, border, y). nat (nbRows - y))") auto

declare create_border_loop.simps [simp del]

definition create_border ::
  "int \<Rightarrow> int \<Rightarrow> int list \<Rightarrow> int \<Rightarrow> int list \<Rightarrow> (BorderNode list \<times> int list) option" where
  "create_border procRank nbRows isVisited N adj =
     (if nbRows < 0 \<or> isVisited = [] then None
      else case create_border_loop procRank nbRows N adj
                  (replicate (nat nbRows) \<lparr>bw = 0, bz = 0\<rparr>) 0 of
        None \<Rightarrow> None
      | Some border \<Rightarrow> Some (border, isVisited[0 := 1]))"

text \<open>The local \<open>smallest\<close> of \<open>find_closest_border\<close> has no value before the first candidate
  is copied into it; it is read only once \<open>yOpt\<close> is not \<open>-1\<close>.\<close>

function find_closest_border_loop ::
  "int \<Rightarrow> BorderNode list \<Rightarrow> int list \<Rightarrow> int \<Rightarrow> int \<Rightarrow> int \<Rightarrow> int \<Rightarrow> Edge option \<Rightarrow> int option" where
  "find_closest_border_loop procRank border isVisited N nbRows y yOpt smallest =
     (if y < nbRows then
        (if int32 (procRank * nbRows + y) \<ge> N then Some yOpt
         else if 0 \<le> int32 (y + procRank * nbRows)
                 \<and> nat (int32 (y + procRank * nbRows)) < length isVisited then
           (if isVisited ! nat (int32 (y + procRank * nbRows)) \<noteq> 0 then
              find_closest_border_loop procRank border isVisited N nbRows (y + 1) yOpt smallest
            else if 0 \<le> y \<and> nat y < length border then
              (let curEdge = init_edge (int32 (procRank * nbRows + y)) (bz (border ! nat y))
                               (bw (border ! nat y))
               in if bw (border ! nat y) \<noteq> 0 then
                    (if yOpt = - 1 then
                       find_closest_border_loop procRank border isVisited N nbRows (y + 1) y
                         (Some curEdge)
                     else
                       (case smallest of
                          None \<Rightarrow> None
                        | Some s \<Rightarrow>
                            if cmp_edges s curEdge > 0 then
                              find_closest_border_loop procRank border isVisited N nbRows (y + 1) y
                                (Some curEdge)
                            else
                              find_closest_border_loop procRank border isVisited N nbRows (y + 1)
                                yOpt smallest))
                  else
                    find_closest_border_loop procRank border isVisited N nbRows (y + 1) yOpt
                      smallest)
            else None)
         else None)
      else Some yOpt)"
  by pat_completeness auto
termination
  by (relation "measure (\<lambda>(procRank, border, isVisited, N, nbRows, y, yOpt, smallest).
        nat (nbRows - y))") auto

declare find_closest_border_loop.simps [simp del]

definition find_closest_border ::
  "int \<Rightarrow> BorderNode list \<Rightarrow> int list \<Rightarrow> int \<Rightarrow> int \<Rightarrow> int option" where
  "find_closest_border procRank border isVisited N nbRows =
     find_closest_border_loop procRank border isVisited N nbRows 0 (- 1) None"

text \<open>
  \<open>send_edge\<close> fills the three ints that the rank contributes to the gather: the sentinel
  \<open>-1\<close> followed by two ints that were never written (\<open>None\<close>), or the global vertex, the tree
  endpoint and the weight of the candidate. \<open>MPI_Gather\<close> puts the contributions of all
  ranks, in rank order, into the buffer of rank 0; \<open>MPI_Bcast\<close> gives every rank the value
  of rank 0.
\<close>

definition send_edge :: "int \<Rightarrow> BorderNode list \<Rightarrow> int \<Rightarrow> int \<Rightarrow> int option list option" where
  "send_edge procRank border nbRows y =
     (if y \<noteq> - 1 then
        (if 0 \<le> y \<and> nat y < length border then
           Some [Some (int32 (y + procRank * nbRows)), Some (bz (border ! nat y)),
                 Some (bw (border ! nat y))]
         else None)
      else Some [Some y, None, None])"

definition MPI_Gather :: "'a list list \<Rightarrow> 'a list" where
  "MPI_Gather bufs = concat bufs"

function select_new_vertex_loop ::
  "int \<Rightarrow> int option list \<Rightarrow> int \<Rightarrow> int \<Rightarrow> Edge \<Rightarrow> (int \<times> Edge) option" where
  "select_new_vertex_loop numProcs minEdges idProc idSmallestVertex smallest =
     (if idProc < numProcs then
        (if 0 \<le> idProc \<and> nat (idProc * 3 + 2) < length minEdges then
           (case minEdges ! nat (idProc * 3) of
              None \<Rightarrow> None
            | Some e0 \<Rightarrow>
                if e0 = - 1 then
                  select_new_vertex_loop numProcs minEdges (idProc + 1) idSmallestVertex smallest
                else
                  (case (minEdges ! nat (idProc * 3 + 1), minEdges ! nat (idProc * 3 + 2)) of
                     (Some e1, Some e2) \<Rightarrow>
                       (let curEdge = init_edge e0 e1 e2
                        in if idSmallestVertex = - 1 \<or> cmp_edges smallest curEdge > 0 then
                             select_new_vertex_loop numProcs minEdges (idProc + 1) e0 curEdge
                           else
                             select_new_vertex_loop numProcs minEdges (idProc + 1)
                               idSmallestVertex smallest)
                   | _ \<Rightarrow> None))
         else None)
      else Some (idSmallestVertex, smallest))"
  by pat_completeness auto
termination
  by (relation "measure (\<lambda>(numProcs, minEdges, idProc, idSmallestVertex, smallest).
        nat (numProcs - idProc))") auto

declare select_new_vertex_loop.simps [simp del]

text \<open>The result \<open>None\<close> of \<open>select_new_vertex\<close> on rank 0, when the loop itself returns, is
  the failure of \<open>assert(idSmallestVertex != -1)\<close>.\<close>

definition select_new_vertex ::
  "int \<Rightarrow> int \<Rightarrow> int option list \<Rightarrow> Edge \<Rightarrow> (int \<times> Edge) option" where
  "select_new_vertex procRank numProcs minEdges smallest =
     (if procRank \<noteq> 0 then Some (- 1, smallest)
      else case select_new_vertex_loop numProcs minEdges 0 (- 1) smallest of
        None \<Rightarrow> None
      | Some (idSmallestVertex, smallest') \<Rightarrow>
          if idSmallestVertex \<noteq> - 1 then Some (idSmallestVertex, smallest') else None)"

function add_vertex_to_border_loop ::
  "int \<Rightarrow> int list \<Rightarrow> int \<Rightarrow> int \<Rightarrow> BorderNode list \<Rightarrow> int list \<Rightarrow> int \<Rightarrow> int
     \<Rightarrow> BorderNode list option" where
  "add_vertex_to_border_loop procRank adj N newVertex border isVisited nbRows y =
     (if y < nbRows then
        (if int32 (procRank * nbRows + y) \<ge> N then Some border
         else if 0 \<le> int32 (procRank * nbRows + y)
                 \<and> nat (int32 (procRank * nbRows + y)) < length isVisited then
           (if isVisited ! nat (int32 (procRank * nbRows + y)) \<noteq> 0 then
              add_vertex_to_border_loop procRank adj N newVertex border isVisited nbRows (y + 1)
            else if 0 \<le> int32 (y * N + newVertex)
                    \<and> nat (int32 (y * N + newVertex)) < length adj then
              (let w = adj ! nat (int32 (y * N + newVertex))
               in if w = 0 then
                    add_vertex_to_border_loop procRank adj N newVertex border isVisited nbRows
                      (y + 1)
                  else if 0 \<le> y \<and> nat y < length border then
                    (let curEdge = init_edge (bz (border ! nat y)) y (bw (border ! nat y));
                         candidate = init_edge newVertex y w
                     in if bw (border ! nat y) = 0 \<or> cmp_edges curEdge candidate > 0 then
                          add_vertex_to_border_loop procRank adj N newVertex
                            (border[nat y := \<lparr>bw = w, bz = newVertex\<rparr>]) isVisited nbRows (y + 1)
                        else
                          add_vertex_to_border_loop procRank adj N newVertex border isVisited
                            nbRows (y + 1))
                  else None)
            else None)
         else None)
      else Some border)"
  by pat_completeness auto
termination
  by (relation "measure (\<lambda>(procRank, adj, N, newVertex, border, isVisited, nbRows, y).
        nat (nbRows - y))") auto

declare add_vertex_to_border_loop.simps [simp del]

definition add_vertex_to_border ::
  "int \<Rightarrow> int \<Rightarrow> int list \<Rightarrow> int \<Rightarrow> int \<Rightarrow> BorderNode list \<Rightarrow> int list \<Rightarrow> int
     \<Rightarrow> (BorderNode list \<times> int list) option" where
  "add_vertex_to_border procRank numProcs adj N newVertex border isVisited nbRows =
     (if 0 \<le> newVertex \<and> nat newVertex < length isVisited then
        (case add_vertex_to_border_loop procRank adj N newVertex border
                (isVisited[nat newVertex := 1]) nbRows 0 of
           None \<Rightarrow> None
         | Some border' \<Rightarrow> Some (border', isVisited[nat newVertex := 1]))
      else None)"

text \<open>
  One iteration on all ranks at once. The state of rank \<open>r\<close> is the pair of its \<open>border\<close>
  and its \<open>isVisited\<close>, \<open>adjs ! r\<close> is its \<open>adj\<close> argument. Every rank finds its candidate; the
  candidates are gathered on rank 0, which selects the new vertex and writes the new edge;
  the new vertex is broadcast and every rank updates its border.
\<close>

definition parallel_prim_iteration ::
  "int \<Rightarrow> int list list \<Rightarrow> int \<Rightarrow> (BorderNode list \<times> int list) list \<Rightarrow> int \<Rightarrow> Edge
     \<Rightarrow> ((BorderNode list \<times> int list) list \<times> Edge) option" where
  "parallel_prim_iteration numProcs adjs N states nbRows newEdge =
     (case those (map (\<lambda>r. find_closest_border (int r) (fst (states ! r)) (snd (states ! r))
                              N nbRows) [0..<nat numProcs]) of
        None \<Rightarrow> None
      | Some y_min \<Rightarrow>
     (case those (map (\<lambda>r. send_edge (int r) (fst (states ! r)) nbRows (y_min ! r))
                     [0..<nat numProcs]) of
        None \<Rightarrow> None
      | Some bufs \<Rightarrow>
     (case select_new_vertex 0 numProcs (MPI_Gather bufs) newEdge of
        None \<Rightarrow> None
      | Some (newVertex, newEdge') \<Rightarrow>
     (case those (map (\<lambda>r. add_vertex_to_border (int r) numProcs (adjs ! r) N newVertex
                              (fst (states ! r)) (snd (states ! r)) nbRows)
                     [0..<nat numProcs]) of
        None \<Rightarrow> None
      | Some states' \<Rightarrow> Some (states', newEdge')))))"

function parallel_prim_loop ::
  "int \<Rightarrow> int list list \<Rightarrow> int \<Rightarrow> (BorderNode list \<times> int list) list \<Rightarrow> int \<Rightarrow> Edge list
     \<Rightarrow> int \<Rightarrow> Edge list option" where
  "parallel_prim_loop numProcs adjs N states nbRows tree edge =
     (if edge < N - 1 then
        (if 0 \<le> edge \<and> nat edge < length tree then
           (case parallel_prim_iteration numProcs adjs N states nbRows (tree ! nat edge) of
              None \<Rightarrow> None
            | Some (states', newEdge) \<Rightarrow>
                parallel_prim_loop numProcs adjs N states' nbRows (tree[nat edge := newEdge])
                  (edge + 1))
         else None)
      else Some tree)"
  by pat_completeness auto
termination
  by (relation "measure (\<lambda>(numProcs, adjs, N, states, nbRows, tree, edge). nat (N - 1 - edge))")
    auto

declare parallel_prim_loop.simps [simp del]

text \<open>
  \<open>nbRows\<close> is \<open>ceil((float)N / (float)numProcs)\<close>. For \<open>N\<close> and \<open>numProcs\<close> below \<open>2 ^ 24\<close>
  both conversions are exact and the rounded quotient has the ceiling of the exact one,
  which is the integer computed here.
\<close>

definition ceil_div :: "int \<Rightarrow> int \<Rightarrow> int" where
  "ceil_div N numProcs = (N + numProcs - 1) div numProcs"

text \<open>All ranks together: \<open>adjs ! r\<close> is the \<open>adj\<close> argument of rank \<open>r\<close>, the result is the tree
  of rank 0.\<close>

definition parallel_prim ::
  "int \<Rightarrow> int list list \<Rightarrow> int \<Rightarrow> Edge list \<Rightarrow> Edge list option" where
  "parallel_prim numProcs adjs N tree =
     (if numProcs \<le> 0 \<or> N < 0 \<or> length adjs \<noteq> nat numProcs then None
      else
        (let nbRows = ceil_div N numProcs
         in case those (map (\<lambda>r. create_border (int r) nbRows (replicate (nat N) 0) N (adjs ! r))
                          [0..<nat numProcs]) of
              None \<Rightarrow> None
            | Some states \<Rightarrow> parallel_prim_loop numProcs adjs N states nbRows tree 0))"

section \<open>The edge wire codec\<close>

text \<open>
  Messages between one sender and one receiver are a queue: \<open>MPI_Send\<close> yields the message
  that is appended, \<open>MPI_Recv\<close> takes the head of the queue into a buffer of \<open>cnt\<close> ints.
  A receive from an empty queue never returns, a longer message than the buffer is an MPI
  error, a negative count is one as well: all three are \<open>None\<close>.
\<close>

record message =
  dest :: int
  tag :: int
  payload :: "int list"

definition MPI_Send :: "int list \<Rightarrow> int \<Rightarrow> int \<Rightarrow> int \<Rightarrow> message option" where
  "MPI_Send buf cnt target t =
     (if 0 \<le> cnt \<and> nat cnt \<le> length buf
      then Some \<lparr>dest = target, tag = t, payload = take (nat cnt) buf\<rparr> else None)"

definition MPI_Recv :: "int list \<Rightarrow> int \<Rightarrow> int \<Rightarrow> message list \<Rightarrow> (int list \<times> message list) option" where
  "MPI_Recv buf cnt t inbox =
     (case inbox of
        [] \<Rightarrow> None
      | m # rest \<Rightarrow>
          if tag m = t \<and> 0 \<le> cnt \<and> nat cnt \<le> length buf \<and> length (payload m) \<le> nat cnt
          then Some (payload m @ drop (length (payload m)) buf, rest)
          else None)"

function send_edges_fill :: "Edge list \<Rightarrow> int \<Rightarrow> int \<Rightarrow> int list \<Rightarrow> int list option" where
  "send_edges_fill edges nbEdges i buf =
     (if i < nbEdges then
        (if 0 \<le> i \<and> nat i < length edges \<and> nat (i * 3 + 2) < length buf
         then send_edges_fill edges nbEdges (i + 1)
                (buf[nat (i * 3) := ei (edges ! nat i),
                     nat (i * 3 + 1) := ej (edges ! nat i),
                     nat (i * 3 + 2) := ew (edges ! nat i)])
         else None)
      else Some buf)"
  by pat_completeness auto
termination
  by (relation "measure (\<lambda>(edges, nbEdges, i, buf). nat (nbEdges - i))") auto

declare send_edges_fill.simps [simp del]

definition send_edges_to :: "int \<Rightarrow> Edge list \<Rightarrow> int \<Rightarrow> message list option" where
  "send_edges_to target edges nbEdges =
     (if nbEdges < 0 then None
      else case send_edges_fill edges nbEdges 0 (replicate (nat (nbEdges * 3)) 0) of
        None \<Rightarrow> None
      | Some buf \<Rightarrow>
          (case MPI_Send [nbEdges] 1 target 0 of
             None \<Rightarrow> None
           | Some m1 \<Rightarrow>
               (case MPI_Send buf (nbEdges * 3) target 0 of
                  None \<Rightarrow> None
                | Some m2 \<Rightarrow> Some [m1, m2])))"

function receive_edges_fill :: "int list \<Rightarrow> int \<Rightarrow> int \<Rightarrow> Edge list \<Rightarrow> Edge list option" where
  "receive_edges_fill buffer nbEdges i edges =
     (if i < nbEdges then
        (if 0 \<le> i \<and> nat i < length edges \<and> nat (i * 3 + 2) < length buffer
         then receive_edges_fill buffer nbEdges (i + 1)
                (edges[nat i := \<lparr>ei = buffer ! nat (i * 3),
                                  ej = buffer ! nat (i * 3 + 1),
                                  ew = buffer ! nat (i * 3 + 2)\<rparr>])
         else None)
      else Some edges)"
  by pat_completeness auto
termination
  by (relation "measure (\<lambda>(buffer, nbEdges, i, edges). nat (nbEdges - i))") auto

declare receive_edges_fill.simps [simp del]

definition receive_edges_from ::
  "int \<Rightarrow> int \<Rightarrow> Edge list \<Rightarrow> message list \<Rightarrow> (int \<times> Edge list \<times> message list) option" where
  "receive_edges_from stepSize targetRank edges inbox =
     (case MPI_Recv [0] 1 0 inbox of
        None \<Rightarrow> None
      | Some (cntbuf, inbox1) \<Rightarrow>
          (case cntbuf of
             [nbEdges] \<Rightarrow>
               (if nbEdges < 0 then None
                else case MPI_Recv (replicate (nat (nbEdges * 3)) 0) (nbEdges * 3) 0 inbox1 of
                  None \<Rightarrow> None
                | Some (buffer, inbox2) \<Rightarrow>
                    (case receive_edges_fill buffer nbEdges 0 edges of
                       None \<Rightarrow> None
                     | Some edges' \<Rightarrow> Some (nbEdges, edges', inbox2)))
           | _ \<Rightarrow> None))"

definition wire :: "Edge list \<Rightarrow> int list" where
  "wire es = concat (map (\<lambda>e. [ei e, ej e, ew e]) es)"

section \<open>Parallel Kruskal\<close>

text \<open>
  Ranks are non-negative, so \<open>%\<close> of the source is \<open>mod\<close>; \<open>rank & 1\<close>, \<open>rank >>= 1\<close> and
  \<open>stepSize <<= 1\<close> are \<open>AND\<close>, \<open>drop_bit\<close> and \<open>push_bit\<close>. The products (buffer sizes, row
  numbers, indices of \<open>adj\<close>) are computed in 32 bits.
\<close>

unbundle bit_operations_syntax

function merge_sorted_lists_loop ::
  "Edge list \<Rightarrow> int \<Rightarrow> Edge list \<Rightarrow> int \<Rightarrow> Edge list \<Rightarrow> int \<Rightarrow> int \<Rightarrow> Edge list option" where
  "merge_sorted_lists_loop li ni lj nj output i j =
     (if i < ni \<or> j < nj then
        (if 0 \<le> i \<and> 0 \<le> j \<and> nat (i + j) < length output then
           (if j \<ge> nj then
              (if nat i < length li
               then merge_sorted_lists_loop li ni lj nj (output[nat (i + j) := li ! nat i]) (i + 1) j
               else None)
            else if i < ni then
              (if nat i < length li \<and> nat j < length lj then
                 (if cmp_edges (li ! nat i) (lj ! nat j) < 0
                  then merge_sorted_lists_loop li ni lj nj (output[nat (i + j) := li ! nat i])
                         (i + 1) j
                  else merge_sorted_lists_loop li ni lj nj (output[nat (i + j) := lj ! nat j])
                         i (j + 1))
               else None)
            else
              (if nat j < length lj
               then merge_sorted_lists_loop li ni lj nj (output[nat (i + j) := lj ! nat j]) i (j + 1)
               else None))
         else None)
      else Some output)"
  by pat_completeness auto
termination
  by (relation "measure (\<lambda>(li, ni, lj, nj, output, i, j). nat (ni - i) + nat (nj - j))") auto

declare merge_sorted_lists_loop.simps [simp del]

definition merge_sorted_lists ::
  "Edge list \<Rightarrow> int \<Rightarrow> Edge list \<Rightarrow> int \<Rightarrow> Edge list \<Rightarrow> Edge list option" where
  "merge_sorted_lists li ni lj nj output = merge_sorted_lists_loop li ni lj nj output 0 0"

text \<open>\<open>memcpy(dst, src, n * sizeof(Edge))\<close>.\<close>

definition memcpy_edges :: "Edge list \<Rightarrow> Edge list \<Rightarrow> int \<Rightarrow> Edge list option" where
  "memcpy_edges dst src n =
     (if 0 \<le> n \<and> nat n \<le> length dst \<and> nat n \<le> length src
      then Some (take (nat n) src @ drop (nat n) dst) else None)"

definition merge_into :: "Edge list \<Rightarrow> int \<Rightarrow> Edge list \<Rightarrow> int \<Rightarrow> Edge list option" where
  "merge_into oldBuf n1 newBuf n2 =
     (if n1 + n2 < 0 then None
      else case merge_sorted_lists oldBuf n1 newBuf n2 (calloc_edges (n1 + n2)) of
        None \<Rightarrow> None
      | Some output \<Rightarrow> memcpy_edges newBuf output (n1 + n2))"

text \<open>
  The messages that wait for a rank are its \<open>inbox\<close>: a queue for each source rank. The two
  buffers of \<open>receive_edges\<close> are \<open>edges\<close> and \<open>tmpBuf\<close>; \<open>buf1\<close> points to \<open>edges\<close> when
  \<open>parity\<close> is 0 and to \<open>tmpBuf\<close> when it is 1, \<open>buf2\<close> to the other one.
\<close>

function receive_edges_loop ::
  "int \<Rightarrow> int \<Rightarrow> int \<Rightarrow> Edge list \<Rightarrow> Edge list \<Rightarrow> Edge list \<Rightarrow> int \<Rightarrow> int
     \<Rightarrow> (int \<Rightarrow> message list) \<Rightarrow> int
     \<Rightarrow> (Edge list \<times> Edge list \<times> int \<times> int \<times> (int \<Rightarrow> message list)) option" where
  "receive_edges_loop procRank numProcs stepSize edges tmpBuf newEdges parity nbEdges inbox i =
     (if i < stepSize then
        (if procRank + stepSize + i \<ge> numProcs then Some (edges, tmpBuf, parity, nbEdges, inbox)
         else
           (case receive_edges_from stepSize (procRank + stepSize + i) newEdges
                   (inbox (procRank + stepSize + i)) of
              None \<Rightarrow> None
            | Some (nbNewEdges, newEdges', rest) \<Rightarrow>
                (case merge_sorted_lists (if parity = 0 then edges else tmpBuf) nbEdges
                        newEdges' nbNewEdges (if parity = 0 then tmpBuf else edges) of
                   None \<Rightarrow> None
                 | Some buf2 \<Rightarrow>
                     receive_edges_loop procRank numProcs stepSize
                       (if parity = 0 then edges else buf2) (if parity = 0 then buf2 else tmpBuf)
                       newEdges' (1 - parity) (nbEdges + nbNewEdges)
                       (inbox(procRank + stepSize + i := rest)) (i + 1))))
      else Some (edges, tmpBuf, parity, nbEdges, inbox))"
  by pat_completeness auto
termination
  by (relation "measure (\<lambda>(procRank, numProcs, stepSize, edges, tmpBuf, newEdges, parity,
        nbEdges, inbox, i). nat (stepSize - i))") auto

declare receive_edges_loop.simps [simp del]

definition receive_edges ::
  "int \<Rightarrow> int \<Rightarrow> int \<Rightarrow> int \<Rightarrow> Edge list \<Rightarrow> int \<Rightarrow> int \<Rightarrow> (int \<Rightarrow> message list)
     \<Rightarrow> (int \<times> Edge list \<times> (int \<Rightarrow> message list)) option" where
  "receive_edges procRank numProcs stepSize squareSize edges nbEdges nbEdgesMax inbox =
     (if nbEdgesMax < 0 \<or> int32 (stepSize * squareSize) < 0 then None
      else case receive_edges_loop procRank numProcs stepSize edges (calloc_edges nbEdgesMax)
                  (calloc_edges (int32 (stepSize * squareSize))) 0 nbEdges inbox 0 of
        None \<Rightarrow> None
      | Some (edges', tmpBuf, parity, nbEdges', inbox') \<Rightarrow>
          if parity \<noteq> 0 then
            (case memcpy_edges edges' tmpBuf nbEdges' of
               None \<Rightarrow> None
             | Some edges'' \<Rightarrow> Some (nbEdges', edges'', inbox'))
          else Some (nbEdges', edges', inbox'))"

definition receive_forest ::
  "int \<Rightarrow> int \<Rightarrow> int \<Rightarrow> Edge list \<Rightarrow> (int \<Rightarrow> message list)
     \<Rightarrow> (int \<times> Edge list \<times> (int \<Rightarrow> message list)) option" where
  "receive_forest procRank numProcs stepSize edges inbox =
     (let target = procRank + stepSize
      in if target \<ge> numProcs then Some (0, edges, inbox)
         else case receive_edges_from stepSize target edges (inbox target) of
           None \<Rightarrow> None
         | Some (nbEdges, edges', rest) \<Rightarrow> Some (nbEdges, edges', inbox(target := rest)))"

definition receive_new_edges ::
  "int \<Rightarrow> int \<Rightarrow> int \<Rightarrow> int \<Rightarrow> int \<Rightarrow> Edge list \<Rightarrow> int \<Rightarrow> Edge list \<Rightarrow> int
     \<Rightarrow> (int \<Rightarrow> message list) \<Rightarrow> (int \<times> Edge list \<times> (int \<Rightarrow> message list)) option" where
  "receive_new_edges procRank numProcs stepSize squareSize nbRows edges nbMaxEdges forest
       forestSize inbox =
     (case receive_forest procRank numProcs stepSize edges inbox of
        None \<Rightarrow> None
      | Some (newForestSize, edges1, inbox1) \<Rightarrow>
          (case receive_edges procRank numProcs stepSize squareSize edges1 newForestSize
                  nbMaxEdges inbox1 of
             None \<Rightarrow> None
           | Some (nbNewEdges, edges2, inbox2) \<Rightarrow>
               (case merge_into forest forestSize edges2 nbNewEdges of
                  None \<Rightarrow> None
                | Some edges3 \<Rightarrow> Some (nbNewEdges + forestSize, edges3, inbox2))))"

function add_edges_from_submatrix_row ::
  "int \<Rightarrow> int \<Rightarrow> int list \<Rightarrow> int \<Rightarrow> int \<Rightarrow> int \<Rightarrow> int \<Rightarrow> int \<Rightarrow> Edge list \<Rightarrow> int
     \<Rightarrow> (Edge list \<times> int) option" where
  "add_edges_from_submatrix_row procRank stepSize adj nbRows N start i j edges numEdge =
     (if j < int32 (start + nbRows * stepSize) then
        (if 0 \<le> int32 (i * N + j) \<and> nat (int32 (i * N + j)) < length adj then
           (if adj ! nat (int32 (i * N + j)) = 0
            then add_edges_from_submatrix_row procRank stepSize adj nbRows N start i (j + 1)
                   edges numEdge
            else if 0 \<le> numEdge \<and> nat numEdge < length edges
            then add_edges_from_submatrix_row procRank stepSize adj nbRows N start i (j + 1)
                   (edges[nat numEdge :=
                      init_edge (int32 (procRank * nbRows + i)) j
                        (adj ! nat (int32 (i * N + j)))])
                   (numEdge + 1)
            else None)
         else None)
      else Some (edges, numEdge))"
  by pat_completeness auto
termination
  by (relation "measure (\<lambda>(procRank, stepSize, adj, nbRows, N, start, i, j, edges, numEdge).
        nat (int32 (start + nbRows * stepSize) - j))") auto

declare add_edges_from_submatrix_row.simps [simp del]

function add_edges_from_submatrix_loop ::
  "int \<Rightarrow> int \<Rightarrow> int list \<Rightarrow> int \<Rightarrow> int \<Rightarrow> int \<Rightarrow> int \<Rightarrow> Edge list \<Rightarrow> int
     \<Rightarrow> (Edge list \<times> int) option" where
  "add_edges_from_submatrix_loop procRank stepSize adj nbRows N start i edges numEdge =
     (if i < nbRows then
        (if int32 (procRank * nbRows + i) \<ge> N then Some (edges, numEdge)
         else
           (case add_edges_from_submatrix_row procRank stepSize adj nbRows N start i start
                   edges numEdge of
              None \<Rightarrow> None
            | Some (edges', numEdge') \<Rightarrow>
                add_edges_from_submatrix_loop procRank stepSize adj nbRows N start (i + 1)
                  edges' numEdge'))
      else Some (edges, numEdge))"
  by pat_completeness auto
termination
  by (relation "measure (\<lambda>(procRank, stepSize, adj, nbRows, N, start, i, edges, numEdge).
        nat (nbRows - i))") auto

declare add_edges_from_submatrix_loop.simps [simp del]

definition add_edges_from_submatrix ::
  "int \<Rightarrow> int \<Rightarrow> int list \<Rightarrow> int \<Rightarrow> int \<Rightarrow> Edge list \<Rightarrow> (Edge list \<times> int) option" where
  "add_edges_from_submatrix procRank stepSize adj nbRows N edges =
     add_edges_from_submatrix_loop procRank stepSize adj nbRows N
       (int32 (((procRank - procRank mod stepSize) - stepSize) * nbRows)) 0 edges 0"

definition send_bipartite_forest ::
  "int \<Rightarrow> int \<Rightarrow> int \<Rightarrow> int \<Rightarrow> int list \<Rightarrow> int \<Rightarrow> message list option" where
  "send_bipartite_forest procRank stepSize squareSize nbRows adj N =
     (let target = (procRank - procRank mod stepSize) - stepSize
      in if int32 (squareSize * stepSize * stepSize) < 0
            \<or> int32 ((stepSize + 1) * nbRows - 1) < 0 then None
         else case add_edges_from_submatrix procRank stepSize adj nbRows N
                     (calloc_edges (int32 (squareSize * stepSize * stepSize))) of
           None \<Rightarrow> None
         | Some (edges, nbEdges) \<Rightarrow>
             (case union_find (qsort edges nbEdges cmp_edges) N nbEdges
                     (calloc_edges (int32 ((stepSize + 1) * nbRows - 1))) of
                None \<Rightarrow> None
              | Some (forestSize, forest) \<Rightarrow> send_edges_to target forest forestSize))"

definition send_forest :: "int \<Rightarrow> int \<Rightarrow> Edge list \<Rightarrow> int \<Rightarrow> message list option" where
  "send_forest procRank stepSize forest forestSize =
     send_edges_to (procRank - stepSize) forest forestSize"

text \<open>\<open>realloc\<close> to \<open>n\<close> edges keeps the front of the array; the edges that it adds have no
  value yet and are written before they are read, they are zeroed here.\<close>

definition realloc_edges :: "Edge list \<Rightarrow> int \<Rightarrow> Edge list" where
  "realloc_edges buf n = take (nat n) buf @ replicate (nat n - length buf) zero_edge"

text \<open>
  The variables that a rank keeps from one iteration of the loop of \<open>parallel_kruskal\<close> to
  the next, and the body of the loop: it yields the new variables, the inbox and the
  messages that the rank has sent.
\<close>

record kruskal_rank =
  k_forest :: "Edge list"
  k_forestSize :: int
  k_receiver :: int
  k_rank :: int

definition parallel_kruskal_body ::
  "int \<Rightarrow> int \<Rightarrow> int list \<Rightarrow> int \<Rightarrow> int \<Rightarrow> int \<Rightarrow> int \<Rightarrow> int \<Rightarrow> kruskal_rank
     \<Rightarrow> (int \<Rightarrow> message list)
     \<Rightarrow> (kruskal_rank \<times> (int \<Rightarrow> message list) \<times> message list) option" where
  "parallel_kruskal_body procRank numProcs adj N M nbRows squareSize stepSize st inbox =
     (if k_rank st AND 1 \<noteq> 0 then
        (case (if procRank mod stepSize = 0
               then send_forest procRank stepSize (k_forest st) (k_forestSize st) else Some []) of
           None \<Rightarrow> None
         | Some out1 \<Rightarrow>
             (case send_bipartite_forest procRank stepSize squareSize nbRows adj N of
                None \<Rightarrow> None
              | Some out2 \<Rightarrow> Some (st\<lparr>k_receiver := 0\<rparr>, inbox, out1 @ out2)))
      else if k_receiver st \<noteq> 0 then
        (let subNbEdges = int32 (stepSize * (nbRows * (stepSize + 1) - 1)
                                   + 2 * (stepSize * nbRows - 1));
             nbMaxEdges = (if M < subNbEdges then M else subNbEdges)
         in if nbMaxEdges < 0 \<or> int32 (stepSize * nbRows * 2 - 1) < 0 then None
            else case receive_new_edges procRank numProcs stepSize squareSize nbRows
                        (calloc_edges nbMaxEdges) nbMaxEdges (k_forest st) (k_forestSize st) inbox of
              None \<Rightarrow> None
            | Some (nbNewEdges, edges, inbox') \<Rightarrow>
                (case union_find edges N nbNewEdges
                        (realloc_edges (k_forest st) (int32 (stepSize * nbRows * 2 - 1))) of
                   None \<Rightarrow> None
                 | Some (forestSize', forest') \<Rightarrow>
                     Some (st\<lparr>k_forest := forest', k_forestSize := forestSize'\<rparr>, inbox', [])))
      else Some (st, inbox, []))"

text \<open>
  All ranks together. \<open>net t s\<close> is the queue of the messages from rank \<open>s\<close> that wait for rank
  \<open>t\<close>. No rank waits for a message of an earlier or a later iteration than its own, so
  the ranks are run iteration by iteration: first the ranks that send in this iteration,
  then the others; \<open>run_ranks\<close> runs the body on the selected ranks and delivers what they
  have sent. \<open>stepSize\<close> starts at 1 and is doubled: a value that is not positive does not
  occur, and the shift that leaves the \<open>int\<close> range is undefined; both are \<open>None\<close>.
\<close>

definition run_ranks ::
  "(kruskal_rank \<Rightarrow> bool) \<Rightarrow> int \<Rightarrow> int list list \<Rightarrow> int \<Rightarrow> int \<Rightarrow> int \<Rightarrow> int \<Rightarrow> int
     \<Rightarrow> kruskal_rank list \<times> (int \<Rightarrow> int \<Rightarrow> message list)
     \<Rightarrow> (kruskal_rank list \<times> (int \<Rightarrow> int \<Rightarrow> message list)) option" where
  "run_ranks sel numProcs adjs N M nbRows squareSize stepSize state =
     (case those (map (\<lambda>r. if sel (fst state ! r)
                            then parallel_kruskal_body (int r) numProcs (adjs ! r) N M nbRows
                                   squareSize stepSize (fst state ! r) (snd state (int r))
                            else Some (fst state ! r, snd state (int r), []))
                     [0..<nat numProcs]) of
        None \<Rightarrow> None
      | Some rs \<Rightarrow>
          Some (map fst rs,
                \<lambda>t s. (if 0 \<le> t \<and> t < numProcs then fst (snd (rs ! nat t)) s else snd state t s)
                       @ (if 0 \<le> s \<and> s < numProcs
                          then filter (\<lambda>m. dest m = t) (snd (snd (rs ! nat s))) else [])))"

function parallel_kruskal_loop ::
  "int \<Rightarrow> int list list \<Rightarrow> int \<Rightarrow> int \<Rightarrow> int \<Rightarrow> int \<Rightarrow> int
     \<Rightarrow> kruskal_rank list \<times> (int \<Rightarrow> int \<Rightarrow> message list)
     \<Rightarrow> (kruskal_rank list \<times> (int \<Rightarrow> int \<Rightarrow> message list)) option" where
  "parallel_kruskal_loop numProcs adjs N M nbRows squareSize stepSize state =
     (if int32 (stepSize * nbRows) < N then
        (if 0 < stepSize \<and> push_bit 1 stepSize < 2 ^ 31 then
           (case run_ranks (\<lambda>st. k_rank st AND 1 \<noteq> 0) numProcs adjs N M nbRows squareSize
                   stepSize state of
              None \<Rightarrow> None
            | Some state1 \<Rightarrow>
                (case run_ranks (\<lambda>st. k_rank st AND 1 = 0) numProcs adjs N M nbRows squareSize
                        stepSize state1 of
                   None \<Rightarrow> None
                 | Some (procs, net) \<Rightarrow>
                     parallel_kruskal_loop numProcs adjs N M nbRows squareSize
                       (push_bit 1 stepSize)
                       (map (\<lambda>st. st\<lparr>k_rank := drop_bit 1 (k_rank st)\<rparr>) procs, net)))
         else None)
      else Some state)"
  by pat_completeness auto
termination
  by (relation "measure (\<lambda>(numProcs, adjs, N, M, nbRows, squareSize, stepSize, state).
        nat (2 ^ 31 - stepSize))") (auto simp: push_bit_eq_mult)

declare parallel_kruskal_loop.simps [simp del]

text \<open>The tree of rank 0 after \<open>parallel_kruskal\<close> on all ranks; \<open>adjs ! r\<close> is the \<open>adj\<close>
  argument of rank \<open>r\<close>.\<close>

definition parallel_kruskal ::
  "int \<Rightarrow> int list list \<Rightarrow> int \<Rightarrow> int \<Rightarrow> Edge list \<Rightarrow> Edge list option" where
  "parallel_kruskal numProcs adjs N M tree =
     (if numProcs \<le> 0 \<or> N < 0 \<or> length adjs \<noteq> nat numProcs then None
      else
        (let nbRows = ceil_div N numProcs;
             squareSize = int32 (nbRows * nbRows)
         in if nbRows - 1 < 0 then None
            else case those (map (\<lambda>r. case create_forest (int r) (adjs ! r) nbRows N
                                             (calloc_edges (nbRows - 1)) of
                                         None \<Rightarrow> None
                                       | Some (forestSize, forest) \<Rightarrow>
                                           Some \<lparr>k_forest = forest, k_forestSize = forestSize,
                                                 k_receiver = 1, k_rank = int r\<rparr>)
                              [0..<nat numProcs]) of
              None \<Rightarrow> None
            | Some procs \<Rightarrow>
                (case parallel_kruskal_loop numProcs adjs N M nbRows squareSize 1
                        (procs, \<lambda>t s. []) of
                   None \<Rightarrow> None
                 | Some (procs', net) \<Rightarrow>
                     memcpy_edges tree (k_forest (procs' ! 0)) (k_forestSize (procs' ! 0)))))"

section \<open>Properties of the edge order\<close>

lemma int32_id: "is_int32 x \<Longrightarrow> int32 x = x"
  by (simp add: int32_def is_int32_def signed_take_bit_int_eq_self)

lemma is_int32_diff:
  "0 \<le> x \<Longrightarrow> x < 2 ^ 31 \<Longrightarrow> 0 \<le> y \<Longrightarrow> y < 2 ^ 31 \<Longrightarrow> is_int32 (x - y)"
  by (simp add: is_int32_def)

text \<open>The index of entry \<open>(i, j)\<close> of a matrix of \<open>R\<close> rows of \<open>N\<close> ints does not wrap when
  the matrix has at most \<open>2^31\<close> entries.\<close>

lemma int32_index:
  assumes "0 \<le> i" and "i < R" and "0 \<le> j" and "j < N" and "R * N \<le> 2 ^ 31"
  shows "int32 (i * N + j) = i * N + j"
proof -
  have "(i + 1) * N \<le> R * N" using assms(2,3,4) by (intro mult_right_mono) simp_all
  then have "i * N + j < 2 ^ 31" using assms(4,5) by (simp add: algebra_simps)
  moreover have "0 \<le> i * N" using assms(1,3,4) by simp
  ultimately show ?thesis using assms(3) by (intro int32_id) (simp add: is_int32_def)
qed

lemma cmp_edges_exact:
  assumes "0 \<le> ew a" "ew a < 2 ^ 31" "0 \<le> ei a" "ei a < 2 ^ 31" "0 \<le> ej a" "ej a < 2 ^ 31"
    and "0 \<le> ew b" "ew b < 2 ^ 31" "0 \<le> ei b" "ei b < 2 ^ 31" "0 \<le> ej b" "ej b < 2 ^ 31"
  shows "cmp_edges a b =
     (if ew a \<noteq> ew b then ew a - ew b
      else if ei a \<noteq> ei b then ei a - ei b
      else ej a - ej b)"
  using assms by (simp add: cmp_edges_def int32_id is_int32_diff)

text \<open>
  Claim C6. For edges with non-negative int weights and endpoints in \<open>[0, N)\<close>,
  \<open>cmp_edges a b\<close> is negative exactly when \<open>a\<close> comes before \<open>b\<close> in the order
  (weight, i, j), positive exactly when \<open>b\<close> comes before \<open>a\<close>, and zero exactly when the
  three fields agree; so it is a strict total order on canonical edges: irreflexive,
  transitive, and any two different edges are ordered.
\<close>

theorem cmp_edges_strict_total_order:
  assumes "N \<le> 2 ^ 31" and "canonical N a" and "canonical N b" and "canonical N c"
  shows "(cmp_edges a b < 0 \<longleftrightarrow> edge_before a b)
       \<and> (cmp_edges a b > 0 \<longleftrightarrow> edge_before b a)
       \<and> (cmp_edges a b = 0 \<longleftrightarrow> ew a = ew b \<and> ei a = ei b \<and> ej a = ej b)
       \<and> \<not> cmp_edges a a < 0
       \<and> (cmp_edges a b < 0 \<and> cmp_edges b c < 0 \<longrightarrow> cmp_edges a c < 0)
       \<and> (a \<noteq> b \<longrightarrow> cmp_edges a b < 0 \<or> cmp_edges b a < 0)"
proof -
  have ra: "0 \<le> ew a" "ew a < 2 ^ 31" "0 \<le> ei a" "ei a < 2 ^ 31" "0 \<le> ej a" "ej a < 2 ^ 31"
    using assms(1,2) by (auto simp: canonical_def is_int32_def)
  have rb: "0 \<le> ew b" "ew b < 2 ^ 31" "0 \<le> ei b" "ei b < 2 ^ 31" "0 \<le> ej b" "ej b < 2 ^ 31"
    using assms(1,3) by (auto simp: canonical_def is_int32_def)
  have rc: "0 \<le> ew c" "ew c < 2 ^ 31" "0 \<le> ei c" "ei c < 2 ^ 31" "0 \<le> ej c" "ej c < 2 ^ 31"
    using assms(1,4) by (auto simp: canonical_def is_int32_def)
  note ab = cmp_edges_exact [OF ra rb]
  note ba = cmp_edges_exact [OF rb ra]
  note bc = cmp_edges_exact [OF rb rc]
  note ac = cmp_edges_exact [OF ra rc]
  note aa = cmp_edges_exact [OF ra ra]
  have 1: "cmp_edges a b < 0 \<longleftrightarrow> edge_before a b"
    unfolding ab edge_before_def by auto
  have 2: "cmp_edges a b > 0 \<longleftrightarrow> edge_before b a"
    unfolding ab edge_before_def by auto
  have 3: "cmp_edges a b = 0 \<longleftrightarrow> ew a = ew b \<and> ei a = ei b \<and> ej a = ej b"
    unfolding ab by auto
  have 4: "\<not> cmp_edges a a < 0"
    unfolding aa by simp
  have 5: "cmp_edges a b < 0 \<and> cmp_edges b c < 0 \<longrightarrow> cmp_edges a c < 0"
    unfolding ab bc ac by (auto split: if_splits)
  have 6: "a \<noteq> b \<longrightarrow> cmp_edges a b < 0 \<or> cmp_edges b a < 0"
  proof
    assume "a \<noteq> b"
    then have "ew a \<noteq> ew b \<or> ei a \<noteq> ei b \<or> ej a \<noteq> ej b"
      by (cases a, cases b) auto
    then show "cmp_edges a b < 0 \<or> cmp_edges b a < 0"
      unfolding ab ba by auto
  qed
  from 1 2 3 4 5 6 show ?thesis by blast
qed

theorem cmp_edges_strict_total_order_witness:
  "(4::int) \<le> 2 ^ 31
   \<and> canonical 4 \<lparr>ei = 0, ej = 1, ew = 1\<rparr>
   \<and> canonical 4 \<lparr>ei = 1, ej = 2, ew = 2\<rparr>
   \<and> canonical 4 \<lparr>ei = 2, ej = 3, ew = 2\<rparr>
   \<and> cmp_edges \<lparr>ei = 0, ej = 1, ew = 1\<rparr> \<lparr>ei = 1, ej = 2, ew = 2\<rparr> < 0
   \<and> edge_before \<lparr>ei = 0, ej = 1, ew = 1\<rparr> \<lparr>ei = 1, ej = 2, ew = 2\<rparr>
   \<and> cmp_edges \<lparr>ei = 1, ej = 2, ew = 2\<rparr> \<lparr>ei = 2, ej = 3, ew = 2\<rparr> < 0
   \<and> cmp_edges \<lparr>ei = 0, ej = 1, ew = 1\<rparr> \<lparr>ei = 2, ej = 3, ew = 2\<rparr> < 0"
proof -
  have h: "(4::int) \<le> 2 ^ 31"
    "canonical 4 \<lparr>ei = 0, ej = 1, ew = 1\<rparr>"
    "canonical 4 \<lparr>ei = 1, ej = 2, ew = 2\<rparr>"
    "canonical 4 \<lparr>ei = 2, ej = 3, ew = 2\<rparr>"
    by (simp_all add: canonical_def is_int32_def)
  have b1: "edge_before \<lparr>ei = 0, ej = 1, ew = 1\<rparr> \<lparr>ei = 1, ej = 2, ew = 2\<rparr>"
    by (simp add: edge_before_def)
  have b2: "edge_before \<lparr>ei = 1, ej = 2, ew = 2\<rparr> \<lparr>ei = 2, ej = 3, ew = 2\<rparr>"
    by (simp add: edge_before_def)
  from cmp_edges_strict_total_order [OF h(1) h(2) h(3) h(4)] b1
  have c1: "cmp_edges \<lparr>ei = 0, ej = 1, ew = 1\<rparr> \<lparr>ei = 1, ej = 2, ew = 2\<rparr> < 0"
    by blast
  from cmp_edges_strict_total_order [OF h(1) h(3) h(4) h(2)] b2
  have c2: "cmp_edges \<lparr>ei = 1, ej = 2, ew = 2\<rparr> \<lparr>ei = 2, ej = 3, ew = 2\<rparr> < 0"
    by blast
  from cmp_edges_strict_total_order [OF h(1) h(2) h(3) h(4)] c1 c2
  have c3: "cmp_edges \<lparr>ei = 0, ej = 1, ew = 1\<rparr> \<lparr>ei = 2, ej = 3, ew = 2\<rparr> < 0"
    by blast
  from h b1 c1 c2 c3 show ?thesis by blast
qed

section \<open>Dispatch: misconfiguration\<close>

lemma newline_notin_digits: "newline \<notin> set (digits n)"
proof (induction n rule: digits.induct)
  case (1 n)
  have d: "digit_char k \<noteq> newline" if "k < 10" for k :: nat
  proof -
    have "digit_char k \<in> set ''0123456789''"
      unfolding digit_char_def using that by (intro nth_mem) simp
    then show ?thesis by (auto simp: newline_def)
  qed
  show ?case
  proof (cases "n < 10")
    case True
    then show ?thesis using d [of n] by (subst digits.simps) auto
  next
    case False
    have "n mod 10 < 10" by simp
    with False 1 d [of "n mod 10"] show ?thesis by (subst digits.simps) auto
  qed
qed

text \<open>
  Claim C9. With a sequential algorithm name and a process count other than 1, rank 0
  prints one line that starts with \<open>ERROR:\<close> and aborts; with a name that is none of the
  four, rank 0 prints an \<open>ERROR:\<close> diagnostic and aborts; in every other case nothing is
  printed, nothing is aborted and the selected algorithm runs. No other rank prints or
  aborts.
\<close>

theorem computeMST_aborts_exactly_on_misconfiguration:
  "(algoName \<in> {''prim-seq'', ''kruskal-seq''} \<and> numProcs \<noteq> 1 \<longrightarrow>
      aborted (computeMST algoName 0 numProcs)
      \<and> ran (computeMST algoName 0 numProcs) = None
      \<and> (\<exists>body. diagnostics (computeMST algoName 0 numProcs) = ''ERROR:'' @ body @ [newline]
              \<and> newline \<notin> set body))
   \<and> (algoName \<notin> {''prim-seq'', ''kruskal-seq'', ''prim-par'', ''kruskal-par''} \<longrightarrow>
      aborted (computeMST algoName 0 numProcs)
      \<and> ran (computeMST algoName 0 numProcs) = None
      \<and> (\<exists>body. diagnostics (computeMST algoName 0 numProcs) = ''ERROR:'' @ body @ [newline]))
   \<and> (algoName = ''prim-seq'' \<and> numProcs = 1 \<longrightarrow>
      computeMST algoName 0 numProcs = \<lparr>diagnostics = [], aborted = False, ran = Some Prim_seq\<rparr>)
   \<and> (algoName = ''kruskal-seq'' \<and> numProcs = 1 \<longrightarrow>
      computeMST algoName 0 numProcs = \<lparr>diagnostics = [], aborted = False, ran = Some Kruskal_seq\<rparr>)
   \<and> (algoName = ''prim-par'' \<longrightarrow>
      computeMST algoName procRank numProcs = \<lparr>diagnostics = [], aborted = False, ran = Some Prim_par\<rparr>)
   \<and> (algoName = ''kruskal-par'' \<longrightarrow>
      computeMST algoName procRank numProcs = \<lparr>diagnostics = [], aborted = False, ran = Some Kruskal_par\<rparr>)
   \<and> (procRank \<noteq> 0 \<longrightarrow>
      diagnostics (computeMST algoName procRank numProcs) = []
      \<and> \<not> aborted (computeMST algoName procRank numProcs))"
proof -
  have nl: "newline \<notin> set (printf_d numProcs)"
  proof (cases "numProcs < 0")
    case True
    have "newline \<noteq> CHR ''-''" by (simp add: newline_def)
    with True show ?thesis by (simp add: printf_d_def newline_notin_digits)
  next
    case False
    then show ?thesis by (simp add: printf_d_def newline_notin_digits)
  qed
  have seq: "\<exists>body. ''ERROR: Sequential algorithm is ran with '' @ printf_d numProcs
                  @ '' MPI processes.'' @ [newline] = ''ERROR:'' @ body @ [newline]
              \<and> newline \<notin> set body"
  proof (rule exI [of _ "'' Sequential algorithm is ran with '' @ printf_d numProcs
                  @ '' MPI processes.''"], rule conjI)
    have a: "newline \<notin> set '' Sequential algorithm is ran with ''"
      by (simp add: newline_def)
    have b: "newline \<notin> set '' MPI processes.''"
      by (simp add: newline_def)
    show "newline \<notin> set ('' Sequential algorithm is ran with '' @ printf_d numProcs
                  @ '' MPI processes.'')"
      using a b nl by (simp only: set_append Un_iff) blast
  qed simp
  have inv: "\<exists>body. ''ERROR: Invalid algorithm name: '' @ algoName @ ''.'' @ [newline]
               = ''ERROR:'' @ body @ [newline]"
    by (rule exI [of _ "'' Invalid algorithm name: '' @ algoName @ ''.''"]) simp
  show ?thesis
    using seq inv by (simp add: computeMST_def)
qed

theorem computeMST_aborts_exactly_on_misconfiguration_witness:
  "''prim-seq'' \<in> {''prim-seq'', ''kruskal-seq''} \<and> (2::int) \<noteq> 1
   \<and> aborted (computeMST ''prim-seq'' 0 2)
   \<and> ran (computeMST ''prim-seq'' 0 2) = None
   \<and> ''prim-sec'' \<notin> {''prim-seq'', ''kruskal-seq'', ''prim-par'', ''kruskal-par''}
   \<and> aborted (computeMST ''prim-sec'' 0 1)
   \<and> computeMST ''kruskal-par'' 3 4 = \<lparr>diagnostics = [], aborted = False, ran = Some Kruskal_par\<rparr>
   \<and> \<not> aborted (computeMST ''prim-seq'' 1 2)"
  using computeMST_aborts_exactly_on_misconfiguration [of "''prim-seq''" 2 1]
    computeMST_aborts_exactly_on_misconfiguration [of "''prim-sec''" 1 1]
    computeMST_aborts_exactly_on_misconfiguration [of "''kruskal-par''" 4 3]
  by simp

section \<open>The disjoint-set forest: roots, compression and union\<close>

text \<open>
  \<open>rep nodes k\<close> is the root that the father pointers lead to from \<open>k\<close>. On the arrays that
  \<open>union_find\<close> builds, the rank of a father is greater than the rank of its child
  (\<open>uf_inv\<close>), so the walk ends.
\<close>

function rep :: "Node list \<Rightarrow> nat \<Rightarrow> nat" where
  "rep nodes k =
     (if k < length nodes \<and> father (nodes ! k) \<noteq> int k \<and> 0 \<le> father (nodes ! k)
         \<and> nat (father (nodes ! k)) < length nodes
         \<and> rank (nodes ! k) < rank (nodes ! nat (father (nodes ! k)))
      then rep nodes (nat (father (nodes ! k))) else k)"
  by pat_completeness auto
termination
proof (relation "measure (\<lambda>(nodes, k). nat (Max (rank ` set nodes) - rank (nodes ! k)))")
  fix nodes :: "Node list" and k :: nat
  assume a: "k < length nodes \<and> father (nodes ! k) \<noteq> int k \<and> 0 \<le> father (nodes ! k)
         \<and> nat (father (nodes ! k)) < length nodes
         \<and> rank (nodes ! k) < rank (nodes ! nat (father (nodes ! k)))"
  then have le: "rank (nodes ! nat (father (nodes ! k))) \<le> Max (rank ` set nodes)"
    by (intro Max_ge) auto
  from a have lt: "rank (nodes ! k) < rank (nodes ! nat (father (nodes ! k)))"
    by simp
  have "nat (Max (rank ` set nodes) - rank (nodes ! nat (father (nodes ! k))))
      < nat (Max (rank ` set nodes) - rank (nodes ! k))"
    using le lt by linarith
  then show "((nodes, nat (father (nodes ! k))), (nodes, k))
      \<in> measure (\<lambda>(nodes, k). nat (Max (rank ` set nodes) - rank (nodes ! k)))"
    by simp
qed simp

declare rep.simps [simp del]

definition uf_inv :: "Node list \<Rightarrow> bool" where
  "uf_inv nodes \<longleftrightarrow>
     (\<forall>k < length nodes. 0 \<le> father (nodes ! k) \<and> nat (father (nodes ! k)) < length nodes
        \<and> (father (nodes ! k) \<noteq> int k \<longrightarrow>
             rank (nodes ! k) < rank (nodes ! nat (father (nodes ! k)))))"

lemma rep_root: "k < length nodes \<Longrightarrow> father (nodes ! k) = int k \<Longrightarrow> rep nodes k = k"
  by (subst rep.simps) simp

lemma rep_step:
  "uf_inv nodes \<Longrightarrow> k < length nodes \<Longrightarrow> father (nodes ! k) \<noteq> int k \<Longrightarrow>
     rep nodes k = rep nodes (nat (father (nodes ! k)))"
  by (subst rep.simps) (simp add: uf_inv_def)

lemma rep_props:
  "uf_inv nodes \<Longrightarrow> k < length nodes \<Longrightarrow>
     rep nodes k < length nodes \<and> father (nodes ! rep nodes k) = int (rep nodes k)
     \<and> rank (nodes ! k) \<le> rank (nodes ! rep nodes k)"
proof (induction nodes k rule: rep.induct)
  case (1 nodes k)
  show ?case
  proof (cases "father (nodes ! k) = int k")
    case True
    with 1 show ?thesis by (simp add: rep_root)
  next
    case False
    let ?p = "nat (father (nodes ! k))"
    from 1(2,3) False have g: "0 \<le> father (nodes ! k)" "?p < length nodes"
      "rank (nodes ! k) < rank (nodes ! ?p)"
      by (simp_all add: uf_inv_def)
    from "1.IH" [OF _ "1.prems"(1) g(2)] "1.prems"(2) False g
    have "rep nodes ?p < length nodes \<and> father (nodes ! rep nodes ?p) = int (rep nodes ?p)
       \<and> rank (nodes ! ?p) \<le> rank (nodes ! rep nodes ?p)"
      by simp
    with g rep_step [OF "1.prems" False] show ?thesis by simp
  qed
qed

lemma rep_lt: "uf_inv nodes \<Longrightarrow> k < length nodes \<Longrightarrow> rep nodes k < length nodes"
  by (simp add: rep_props)

lemma rep_is_root:
  "uf_inv nodes \<Longrightarrow> k < length nodes \<Longrightarrow> father (nodes ! rep nodes k) = int (rep nodes k)"
  by (simp add: rep_props)

lemma rep_rank_less:
  "uf_inv nodes \<Longrightarrow> k < length nodes \<Longrightarrow> father (nodes ! k) \<noteq> int k \<Longrightarrow>
     rank (nodes ! k) < rank (nodes ! rep nodes k)"
proof -
  assume a: "uf_inv nodes" "k < length nodes" "father (nodes ! k) \<noteq> int k"
  let ?p = "nat (father (nodes ! k))"
  from a have g: "?p < length nodes" "rank (nodes ! k) < rank (nodes ! ?p)"
    by (simp_all add: uf_inv_def)
  from rep_props [OF a(1) g(1)] have "rank (nodes ! ?p) \<le> rank (nodes ! rep nodes ?p)" by simp
  with g rep_step [OF a] show ?thesis by simp
qed

text \<open>Pointing a node at its root keeps the invariant and every root.\<close>

lemma compress_inv:
  assumes "uf_inv l" "k < length l"
  shows "uf_inv (l[k := (l ! k)\<lparr>father := int (rep l k)\<rparr>])"
proof -
  let ?l' = "l[k := (l ! k)\<lparr>father := int (rep l k)\<rparr>]"
  have rk: "rank (?l' ! m) = rank (l ! m)" if "m < length l" for m
    using that by (cases "m = k") simp_all
  show ?thesis
    unfolding uf_inv_def
  proof (intro allI impI)
    fix m assume m: "m < length ?l'"
    then have ml: "m < length l" by simp
    show "0 \<le> father (?l' ! m) \<and> nat (father (?l' ! m)) < length ?l'
        \<and> (father (?l' ! m) \<noteq> int m \<longrightarrow> rank (?l' ! m) < rank (?l' ! nat (father (?l' ! m))))"
    proof (cases "m = k")
      case True
      have f: "father (?l' ! m) = int (rep l k)" using True assms(2) by simp
      have lt: "rep l k < length l" using assms by (rule rep_lt)
      show ?thesis
      proof (cases "father (l ! k) = int k")
        case True
        then have "rep l k = k" using assms(2) by (simp add: rep_root)
        with f \<open>m = k\<close> assms(2) show ?thesis by simp
      next
        case False
        from rep_rank_less [OF assms False] have "rank (l ! k) < rank (l ! rep l k)" .
        with f lt True rk [OF lt] rk [OF assms(2)] show ?thesis by simp
      qed
    next
      case False
      then have same: "?l' ! m = l ! m" by simp
      from assms(1) ml have g: "0 \<le> father (l ! m)" "nat (father (l ! m)) < length l"
        "father (l ! m) \<noteq> int m \<longrightarrow> rank (l ! m) < rank (l ! nat (father (l ! m)))"
        by (simp_all add: uf_inv_def)
      with same rk [OF g(2)] show ?thesis by simp
    qed
  qed
qed

lemma compress_rep:
  "uf_inv l \<Longrightarrow> k < length l \<Longrightarrow> m < length l \<Longrightarrow>
     rep (l[k := (l ! k)\<lparr>father := int (rep l k)\<rparr>]) m = rep l m"
proof (induction l m rule: rep.induct)
  case (1 l m)
  let ?l' = "l[k := (l ! k)\<lparr>father := int (rep l k)\<rparr>]"
  note inv = "1.prems"(1) and k = "1.prems"(2) and m = "1.prems"(3)
  have inv': "uf_inv ?l'" using inv k by (rule compress_inv)
  have m': "m < length ?l'" using m by simp
  show ?case
  proof (cases "father (l ! m) = int m")
    case True
    then have r: "rep l m = m" using m by (simp add: rep_root)
    have "father (?l' ! m) = int m"
      using True r m by (cases "m = k") simp_all
    then have "rep ?l' m = m" using m' by (rule rep_root [rotated])
    with r show ?thesis by simp
  next
    case False
    let ?p = "nat (father (l ! m))"
    from inv m False have g: "0 \<le> father (l ! m)" "?p < length l"
      "rank (l ! m) < rank (l ! ?p)"
      by (simp_all add: uf_inv_def)
    have rm: "rep l m = rep l ?p" using inv m False by (rule rep_step)
    show ?thesis
    proof (cases "m = k")
      case True
      let ?r = "rep l k"
      have rlt: "?r < length l" using inv k by (rule rep_lt)
      have rroot: "father (l ! ?r) = int ?r" using inv k by (rule rep_is_root)
      have "rank (l ! k) < rank (l ! ?r)"
        using rep_rank_less [OF inv k] False True by simp
      then have ne: "?r \<noteq> k" by auto
      have fk: "father (?l' ! k) = int ?r" using k by simp
      have "rep ?l' k = rep ?l' (nat (father (?l' ! k)))"
        using inv' _ _ by (rule rep_step) (use k fk ne in simp_all)
      also have "\<dots> = rep ?l' ?r" using fk by simp
      also have "\<dots> = ?r"
        using ne rlt rroot by (intro rep_root) simp_all
      finally show ?thesis using True by simp
    next
      case mk: False
      then have same: "?l' ! m = l ! m" by simp
      have "rep ?l' m = rep ?l' (nat (father (?l' ! m)))"
        using inv' m' by (rule rep_step) (use same False in simp)
      also have "\<dots> = rep ?l' ?p" using same by simp
      also have "\<dots> = rep l ?p"
        using "1.IH" [OF _ inv k g(2)] m False g by simp
      finally show ?thesis using rm by simp
    qed
  qed
qed

lemma rep_induct [consumes 2, case_names root step]:
  assumes "uf_inv l" and "k < length l"
    and root: "\<And>m. m < length l \<Longrightarrow> father (l ! m) = int m \<Longrightarrow> P m"
    and step: "\<And>m. m < length l \<Longrightarrow> father (l ! m) \<noteq> int m \<Longrightarrow> 0 \<le> father (l ! m) \<Longrightarrow>
                 nat (father (l ! m)) < length l \<Longrightarrow>
                 rank (l ! m) < rank (l ! nat (father (l ! m))) \<Longrightarrow>
                 P (nat (father (l ! m))) \<Longrightarrow> P m"
  shows "P k"
  using assms(1,2) root step
proof (induction l k rule: rep.induct)
  case (1 nodes k)
  show ?case
  proof (cases "father (nodes ! k) = int k")
    case True
    with 1 show ?thesis by blast
  next
    case False
    let ?p = "nat (father (nodes ! k))"
    from "1.prems"(1,2) False have g: "0 \<le> father (nodes ! k)" "?p < length nodes"
      "rank (nodes ! k) < rank (nodes ! ?p)"
      by (simp_all add: uf_inv_def)
    have "P ?p"
      using "1.IH" [OF _ "1.prems"(1) g(2) "1.prems"(3,4)] "1.prems"(2) False g by blast
    with "1.prems"(4) [OF "1.prems"(2) False g] show ?thesis .
  qed
qed

lemma find_node_correct:
  "uf_inv nodes \<Longrightarrow> k < length nodes \<Longrightarrow>
     \<exists>nodes'. find_node nodes (int k) = Some (nodes', int (rep nodes k))
        \<and> uf_inv nodes' \<and> length nodes' = length nodes
        \<and> (\<forall>m < length nodes. rep nodes' m = rep nodes m)"
proof (induction nodes k rule: rep.induct)
  case (1 nodes k)
  note inv = "1.prems"(1) and k = "1.prems"(2)
  show ?case
  proof (cases "father (nodes ! k) = int k")
    case True
    then have "find_node nodes (int k) = Some (nodes, int k)"
      using k by (subst find_node.simps) simp
    with True k inv show ?thesis by (simp add: rep_root)
  next
    case False
    let ?p = "nat (father (nodes ! k))"
    from inv k False have g: "0 \<le> father (nodes ! k)" "?p < length nodes"
      "rank (nodes ! k) < rank (nodes ! ?p)"
      by (simp_all add: uf_inv_def)
    from "1.IH" [OF _ inv g(2)] k False g
    obtain nodes2 where n2: "find_node nodes (int ?p) = Some (nodes2, int (rep nodes ?p))"
      "uf_inv nodes2" "length nodes2 = length nodes"
      "\<forall>m < length nodes. rep nodes2 m = rep nodes m"
      by auto
    have rk: "rep nodes k = rep nodes ?p" using inv k False by (rule rep_step)
    have r2: "rep nodes2 k = rep nodes k" using n2(4) k by simp
    let ?n3 = "nodes2[k := (nodes2 ! k)\<lparr>father := int (rep nodes2 k)\<rparr>]"
    have k2: "k < length nodes2" using k n2(3) by simp
    have "find_node nodes (int k) = Some (?n3, int (rep nodes k))"
      using k False g(1) n2(1) rk r2 by (subst find_node.simps) simp
    moreover have "uf_inv ?n3" using n2(2) k2 by (rule compress_inv)
    moreover have "length ?n3 = length nodes" using n2(3) by simp
    moreover have "\<forall>m < length nodes. rep ?n3 m = rep nodes m"
      using compress_rep [OF n2(2) k2] n2(3,4) by simp
    ultimately show ?thesis by blast
  qed
qed

lemma link_correct:
  assumes inv: "uf_inv l" and x: "x < length l" and y: "y < length l" and xy: "x \<noteq> y"
    and rx: "father (l ! x) = int x" and ry: "father (l ! y) = int y"
    and le: "rank (l ! x) \<le> rank (l ! y)"
    and F: "\<forall>m < length l. father (l' ! m) = (if m = x then int y else father (l ! m))"
    and R: "\<forall>m < length l. rank (l ! m) \<le> rank (l' ! m)"
    and Rx: "\<forall>m < length l. m \<noteq> y \<longrightarrow> rank (l' ! m) = rank (l ! m)"
    and Ry: "rank (l ! x) < rank (l' ! y)"
    and len: "length l' = length l"
  shows "uf_inv l' \<and> (\<forall>m < length l. rep l' m = (if rep l m = x then y else rep l m))"
proof
  show inv': "uf_inv l'"
    unfolding uf_inv_def
  proof (intro allI impI)
    fix m assume "m < length l'"
    then have m: "m < length l" using len by simp
    from inv m have g: "0 \<le> father (l ! m)" "nat (father (l ! m)) < length l"
      "father (l ! m) \<noteq> int m \<longrightarrow> rank (l ! m) < rank (l ! nat (father (l ! m)))"
      by (simp_all add: uf_inv_def)
    show "0 \<le> father (l' ! m) \<and> nat (father (l' ! m)) < length l'
        \<and> (father (l' ! m) \<noteq> int m \<longrightarrow> rank (l' ! m) < rank (l' ! nat (father (l' ! m))))"
    proof (cases "m = x")
      case True
      with F x y Rx xy Ry len show ?thesis by simp
    next
      case False
      then have f: "father (l' ! m) = father (l ! m)" using F m by simp
      show ?thesis
      proof (cases "father (l ! m) = int m")
        case True
        with f g len show ?thesis by simp
      next
        case nr: False
        then have "m \<noteq> y" using ry by auto
        then have "rank (l' ! m) = rank (l ! m)" using Rx m by simp
        moreover have "rank (l ! nat (father (l ! m))) \<le> rank (l' ! nat (father (l ! m)))"
          using R g(2) by simp
        ultimately show ?thesis using f g nr len by simp
      qed
    qed
  qed
  have fy: "father (l' ! y) = int y" using F y xy ry by simp
  have fx: "father (l' ! x) = int y" using F x by simp
  have repy: "rep l' y = y" using y fy len by (intro rep_root) simp_all
  have repx: "rep l' x = y"
  proof -
    have "rep l' x = rep l' (nat (father (l' ! x)))"
      using inv' by (rule rep_step) (use x len fx xy in simp_all)
    with fx repy show ?thesis by simp
  qed
  have main: "rep l' m = (if rep l m = x then y else rep l m)" if "m < length l" for m
    using inv that
  proof (induction rule: rep_induct)
    case (root m)
    then have r: "rep l m = m" by (simp add: rep_root)
    show ?case
    proof (cases "m = x")
      case True
      with r repx show ?thesis by simp
    next
      case False
      then have "father (l' ! m) = int m" using F root by simp
      then have "rep l' m = m" using root(1) len by (intro rep_root) simp_all
      with r False show ?thesis by simp
    qed
  next
    case (step m)
    then have mx: "m \<noteq> x" using rx by auto
    then have f: "father (l' ! m) = father (l ! m)" using F step(1) by simp
    have "rep l' m = rep l' (nat (father (l' ! m)))"
      using inv' by (rule rep_step) (use step f len in simp_all)
    moreover have "rep l m = rep l (nat (father (l ! m)))"
      using inv step(1,2) by (rule rep_step)
    ultimately show ?case using step.IH f by simp
  qed
  then show "\<forall>m < length l. rep l' m = (if rep l m = x then y else rep l m)" by blast
qed

lemma fusion_ordered:
  assumes inv: "uf_inv l" and x: "x < length l" and y: "y < length l" and xy: "x \<noteq> y"
    and rx: "father (l ! x) = int x" and ry: "father (l ! y) = int y"
    and le: "rank (l ! x) \<le> rank (l ! y)"
  shows "\<exists>l'. fusion l (int x) (int y) = Some l' \<and> length l' = length l \<and> uf_inv l'
           \<and> (\<forall>m < length l. rep l' m = (if rep l m = x then y else rep l m))"
proof -
  let ?l1 = "l[x := (l ! x)\<lparr>father := int y\<rparr>]"
  let ?l2 = "?l1[y := (?l1 ! y)\<lparr>rank := rank (?l1 ! y) + 1\<rparr>]"
  let ?l' = "if rank (l ! x) = rank (l ! y) then ?l2 else ?l1"
  have r1: "rank (?l1 ! x) = rank (l ! x)" "rank (?l1 ! y) = rank (l ! y)"
    using x y xy by simp_all
  have fus: "fusion l (int x) (int y) = Some ?l'"
    using x y le r1 by (subst fusion.simps) (simp add: Let_def)
  have len: "length ?l' = length l" by simp
  have F: "\<forall>m < length l. father (?l' ! m) = (if m = x then int y else father (l ! m))"
    using x y xy by (auto simp: nth_list_update)
  have R: "\<forall>m < length l. rank (l ! m) \<le> rank (?l' ! m)"
    using x y xy by (auto simp: nth_list_update)
  have Rx: "\<forall>m < length l. m \<noteq> y \<longrightarrow> rank (?l' ! m) = rank (l ! m)"
    using x y xy by (auto simp: nth_list_update)
  have Ry: "rank (l ! x) < rank (?l' ! y)"
    using x y xy le by (auto simp: nth_list_update)
  from link_correct [OF inv x y xy rx ry le F R Rx Ry len] fus len
  show ?thesis by blast
qed

lemma fusion_correct:
  assumes inv: "uf_inv l" and x: "x < length l" and y: "y < length l" and xy: "x \<noteq> y"
    and rx: "father (l ! x) = int x" and ry: "father (l ! y) = int y"
  shows "\<exists>l'. fusion l (int x) (int y) = Some l' \<and> length l' = length l \<and> uf_inv l'
           \<and> (\<forall>a < length l. \<forall>b < length l. rep l' a = rep l' b \<longleftrightarrow>
                 rep l a = rep l b \<or> (rep l a \<in> {x, y} \<and> rep l b \<in> {x, y}))"
proof (cases "rank (l ! x) > rank (l ! y)")
  case True
  then have "fusion l (int x) (int y) = fusion l (int y) (int x)"
    using x y by (subst fusion.simps) simp
  moreover from True have "rank (l ! y) \<le> rank (l ! x)" by simp
  from fusion_ordered [OF inv y x xy [symmetric] ry rx this]
  obtain l' where "fusion l (int y) (int x) = Some l'" "length l' = length l" "uf_inv l'"
    "\<forall>m < length l. rep l' m = (if rep l m = y then x else rep l m)"
    by blast
  ultimately show ?thesis using xy by auto
next
  case False
  then have "rank (l ! x) \<le> rank (l ! y)" by simp
  from fusion_ordered [OF inv x y xy rx ry this]
  obtain l' where "fusion l (int x) (int y) = Some l'" "length l' = length l" "uf_inv l'"
    "\<forall>m < length l. rep l' m = (if rep l m = x then y else rep l m)"
    by blast
  then show ?thesis using xy by auto
qed

subsection \<open>Joined vertices\<close>

definition edge_rel :: "Edge list \<Rightarrow> (int \<times> int) set" where
  "edge_rel T = (\<lambda>e. (ei e, ej e)) ` set T \<union> (\<lambda>e. (ej e, ei e)) ` set T"

lemma joined_edge_rel: "joined T a b \<longleftrightarrow> (a, b) \<in> (edge_rel T)\<^sup>*"
  by (simp add: joined_def edge_rel_def)

lemma sym_edge_rel: "sym (edge_rel T)"
  by (auto simp: edge_rel_def sym_def)

lemma joined_refl [simp]: "joined T a a"
  by (simp add: joined_edge_rel)

lemma joined_sym: "joined T a b \<Longrightarrow> joined T b a"
  using sym_rtrancl [OF sym_edge_rel, of T] by (auto simp: joined_edge_rel sym_def)

lemma joined_trans: "joined T a b \<Longrightarrow> joined T b c \<Longrightarrow> joined T a c"
  by (auto simp: joined_edge_rel)

lemma joined_Nil [simp]: "joined [] a b \<longleftrightarrow> a = b"
  by (simp add: joined_edge_rel edge_rel_def)

lemma joined_snoc:
  "joined (T @ [e]) a b \<longleftrightarrow>
     joined T a b \<or> (joined T a (ei e) \<and> joined T (ej e) b)
     \<or> (joined T a (ej e) \<and> joined T (ei e) b)"
proof -
  have er: "edge_rel (T @ [e]) = insert (ei e, ej e) (insert (ej e, ei e) (edge_rel T))"
    by (auto simp: edge_rel_def)
  have "joined (T @ [e]) a b \<longleftrightarrow>
      (joined T a b \<or> (joined T a (ej e) \<and> joined T (ei e) b))
      \<or> ((joined T a (ei e) \<or> (joined T a (ej e) \<and> joined T (ei e) (ei e)))
          \<and> (joined T (ej e) b \<or> (joined T (ej e) (ej e) \<and> joined T (ei e) b)))"
    unfolding joined_edge_rel er rtrancl_insert by auto
  then show ?thesis
    using joined_trans [of T a "ei e" b] joined_trans [of T a "ej e" b] by auto
qed

lemma joined_mono: "joined T a b \<Longrightarrow> joined (T @ [e]) a b"
  by (simp add: joined_snoc)

subsection \<open>The loop of \<open>union_find\<close>\<close>

definition uf_rel :: "Node list \<Rightarrow> int \<Rightarrow> Edge list \<Rightarrow> bool" where
  "uf_rel nodes N acc \<longleftrightarrow>
     uf_inv nodes \<and> length nodes = nat N
     \<and> (\<forall>a < nat N. \<forall>b < nat N. rep nodes a = rep nodes b \<longleftrightarrow> joined acc (int a) (int b))"

definition in_range :: "int \<Rightarrow> Edge \<Rightarrow> bool" where
  "in_range N e \<longleftrightarrow> 0 \<le> ei e \<and> ei e < N \<and> 0 \<le> ej e \<and> ej e < N"

lemma uf_rel_create_nodes: "uf_rel (create_nodes N) N []"
proof -
  have inv: "uf_inv (create_nodes N)"
    by (simp add: uf_inv_def create_nodes_def)
  have "rep (create_nodes N) k = k" if "k < nat N" for k
    using that by (intro rep_root) (simp_all add: create_nodes_def)
  with inv show ?thesis by (simp add: uf_rel_def create_nodes_def)
qed

lemma select_edges_stop: "\<not> int (length acc) < N - 1 \<Longrightarrow> select_edges N acc es = acc"
  by (cases es) simp_all

lemma length_select_edges_ge: "length acc \<le> length (select_edges N acc es)"
proof (induction es arbitrary: acc)
  case Nil
  show ?case by simp
next
  case (Cons e es)
  from Cons [of acc] Cons [of "acc @ [e]"] show ?case by auto
qed

lemma length_select_edges_le:
  "int (length (select_edges N acc es)) \<le> max (int (length acc)) (N - 1)"
proof (induction es arbitrary: acc)
  case Nil
  show ?case by simp
next
  case (Cons e es)
  from Cons [of acc] Cons [of "acc @ [e]"] show ?case by auto
qed

lemma select_edges_prefix: "take (length acc) (select_edges N acc es) = acc"
proof (induction es arbitrary: acc)
  case Nil
  show ?case by simp
next
  case (Cons e es)
  let ?X = "select_edges N (acc @ [e]) es"
  have "take (length acc) ?X = take (length acc) (take (length (acc @ [e])) ?X)"
    by (simp add: min_def)
  also have "\<dots> = take (length acc) (acc @ [e])"
    by (simp only: Cons [of "acc @ [e]"])
  finally have "take (length acc) ?X = acc" by simp
  with Cons [of acc] show ?case by auto
qed

lemma uf_step:
  assumes rel: "uf_rel nodes N acc" and rng: "in_range N e"
  shows "\<exists>nodes1 nodes2 r1 r2.
      find_node nodes (ei e) = Some (nodes1, r1)
      \<and> find_node nodes1 (ej e) = Some (nodes2, r2)
      \<and> (r1 \<noteq> r2 \<longleftrightarrow> \<not> joined acc (ei e) (ej e))
      \<and> uf_rel nodes2 N acc
      \<and> (r1 \<noteq> r2 \<longrightarrow> (\<exists>nodes3. fusion nodes2 r1 r2 = Some nodes3
                                 \<and> uf_rel nodes3 N (acc @ [e])))"
proof -
  obtain a b where ab: "ei e = int a" "ej e = int b" "a < nat N" "b < nat N"
    using rng unfolding in_range_def
  proof -
    assume h: "\<And>a b. ei e = int a \<Longrightarrow> ej e = int b \<Longrightarrow> a < nat N \<Longrightarrow> b < nat N \<Longrightarrow> thesis"
      and r: "0 \<le> ei e \<and> ei e < N \<and> 0 \<le> ej e \<and> ej e < N"
    show thesis
      by (rule h [of "nat (ei e)" "nat (ej e)"]) (use r in simp_all)
  qed
  from rel have inv: "uf_inv nodes" and len: "length nodes = nat N"
    and cls: "\<forall>a < nat N. \<forall>b < nat N. rep nodes a = rep nodes b \<longleftrightarrow> joined acc (int a) (int b)"
    by (simp_all add: uf_rel_def)
  from find_node_correct [OF inv, of a] ab len
  obtain n1 where n1: "find_node nodes (ei e) = Some (n1, int (rep nodes a))" "uf_inv n1"
    "length n1 = nat N" "\<forall>m < nat N. rep n1 m = rep nodes m"
    by auto
  from find_node_correct [OF n1(2), of b] ab n1(3)
  obtain n2 where n2: "find_node n1 (ej e) = Some (n2, int (rep n1 b))" "uf_inv n2"
    "length n2 = nat N" "\<forall>m < nat N. rep n2 m = rep n1 m"
    by auto
  have reps: "\<forall>m < nat N. rep n2 m = rep nodes m" using n1(4) n2(4) by simp
  have rb: "rep n1 b = rep nodes b" using n1(4) ab by simp
  have rel2: "uf_rel n2 N acc"
    using n2(2,3) cls reps by (simp add: uf_rel_def)
  have dist: "int (rep nodes a) \<noteq> int (rep nodes b) \<longleftrightarrow> \<not> joined acc (ei e) (ej e)"
    using cls ab by simp
  have fus: "\<exists>nodes3. fusion n2 (int (rep nodes a)) (int (rep nodes b)) = Some nodes3
                \<and> uf_rel nodes3 N (acc @ [e])"
    if ne: "rep nodes a \<noteq> rep nodes b"
  proof -
    let ?x = "rep nodes a" and ?y = "rep nodes b"
    have x: "?x < length n2" "father (n2 ! ?x) = int ?x"
      using rep_lt [OF n2(2), of a] rep_is_root [OF n2(2), of a] reps ab n2(3) by simp_all
    have y: "?y < length n2" "father (n2 ! ?y) = int ?y"
      using rep_lt [OF n2(2), of b] rep_is_root [OF n2(2), of b] reps ab n2(3) by simp_all
    from fusion_correct [OF n2(2) x(1) y(1) ne x(2) y(2)]
    obtain n3 where n3: "fusion n2 (int ?x) (int ?y) = Some n3" "length n3 = length n2"
      "uf_inv n3"
      "\<forall>c < length n2. \<forall>d < length n2. rep n3 c = rep n3 d \<longleftrightarrow>
          rep n2 c = rep n2 d \<or> (rep n2 c \<in> {?x, ?y} \<and> rep n2 d \<in> {?x, ?y})"
      by blast
    have "rep n3 c = rep n3 d \<longleftrightarrow> joined (acc @ [e]) (int c) (int d)"
      if c: "c < nat N" and d: "d < nat N" for c d
    proof -
      have c2: "rep n2 c = rep nodes c" and d2: "rep n2 d = rep nodes d"
        using reps c d by simp_all
      have cx: "rep nodes c = ?x \<longleftrightarrow> joined acc (int c) (ei e)"
        and cy: "rep nodes c = ?y \<longleftrightarrow> joined acc (int c) (ej e)"
        and dx: "rep nodes d = ?x \<longleftrightarrow> joined acc (int d) (ei e)"
        and dy: "rep nodes d = ?y \<longleftrightarrow> joined acc (int d) (ej e)"
        and cd: "rep nodes c = rep nodes d \<longleftrightarrow> joined acc (int c) (int d)"
        using cls ab c d by simp_all
      have "rep n3 c = rep n3 d \<longleftrightarrow>
          rep n2 c = rep n2 d \<or> (rep n2 c \<in> {?x, ?y} \<and> rep n2 d \<in> {?x, ?y})"
        using n3(4) c d n2(3) by simp
      also have "\<dots> \<longleftrightarrow> joined acc (int c) (int d)
          \<or> ((joined acc (int c) (ei e) \<or> joined acc (int c) (ej e))
              \<and> (joined acc (int d) (ei e) \<or> joined acc (int d) (ej e)))"
        unfolding c2 d2 using cx cy dx dy cd by simp
      also have "\<dots> \<longleftrightarrow> joined (acc @ [e]) (int c) (int d)"
        unfolding joined_snoc
        using joined_sym [of acc "int d" "ei e"] joined_sym [of acc "int d" "ej e"]
          joined_sym [of acc "ei e" "int d"] joined_sym [of acc "ej e" "int d"]
          joined_trans [of acc "int c" "ei e" "int d"]
          joined_trans [of acc "int c" "ej e" "int d"]
        by blast
      finally show ?thesis .
    qed
    with n3 n2(3) show ?thesis by (auto simp: uf_rel_def)
  qed
  show ?thesis
    apply (rule exI [of _ n1])
    apply (rule exI [of _ n2])
    apply (rule exI [of _ "int (rep nodes a)"])
    apply (rule exI [of _ "int (rep nodes b)"])
    using n1(1) n2(1) rb dist rel2 fus by simp
qed

lemma union_find_loop_correct:
  assumes "uf_rel nodes N acc" and "0 \<le> edge" and "nat M \<le> length edges"
    and "\<forall>e \<in> set (take (nat M) edges). in_range N e"
    and "numEdge = int (length acc)" and "take (length acc) tree = acc"
    and "length (select_edges N acc (drop (nat edge) (take (nat M) edges))) \<le> length tree"
  shows "\<exists>tree'. union_find_loop edges N M nodes edge numEdge tree
           = Some (int (length (select_edges N acc (drop (nat edge) (take (nat M) edges)))), tree')
         \<and> take (length (select_edges N acc (drop (nat edge) (take (nat M) edges)))) tree'
             = select_edges N acc (drop (nat edge) (take (nat M) edges))
         \<and> drop (length (select_edges N acc (drop (nat edge) (take (nat M) edges)))) tree'
             = drop (length (select_edges N acc (drop (nat edge) (take (nat M) edges)))) tree
         \<and> length tree' = length tree"
  using assms
proof (induction "nat (M - edge)" arbitrary: nodes edge numEdge tree acc)
  case 0
  then have ge: "\<not> edge < M" by simp
  then have "drop (nat edge) (take (nat M) edges) = []" using "0.prems"(2) by simp
  moreover have "union_find_loop edges N M nodes edge numEdge tree = Some (numEdge, tree)"
    using ge by (subst union_find_loop.simps) simp
  ultimately show ?case using "0.prems"(5,6) by simp
next
  case (Suc n)
  then have lt: "edge < M" by linarith
  let ?rest = "drop (nat (edge + 1)) (take (nat M) edges)"
  let ?e = "edges ! nat edge"
  have idx: "nat edge < length edges" "nat edge < nat M"
    using lt Suc.prems(2,3) by linarith+
  have dr: "drop (nat edge) (take (nat M) edges) = ?e # ?rest"
    using idx Suc.prems(2) by (simp add: Cons_nth_drop_Suc [symmetric] nat_add_distrib)
  have n: "n = nat (M - (edge + 1))" using Suc.hyps(2) by linarith
  have e0: "0 \<le> edge + 1" using Suc.prems(2) by simp
  show ?case
  proof (cases "numEdge < N - 1")
    case False
    then have "select_edges N acc (drop (nat edge) (take (nat M) edges)) = acc"
      using Suc.prems(5) by (intro select_edges_stop) simp
    moreover have "union_find_loop edges N M nodes edge numEdge tree = Some (numEdge, tree)"
      using False by (subst union_find_loop.simps) simp
    ultimately show ?thesis using Suc.prems(5,6) by simp
  next
    case True
    have "take (nat M) edges ! nat edge \<in> set (take (nat M) edges)"
      using idx Suc.prems(3) by (intro nth_mem) simp
    then have rng: "in_range N ?e"
      using Suc.prems(4) idx by simp
    from uf_step [OF Suc.prems(1) rng]
    obtain nodes1 nodes2 r1 r2 where st:
      "find_node nodes (ei ?e) = Some (nodes1, r1)"
      "find_node nodes1 (ej ?e) = Some (nodes2, r2)"
      "r1 \<noteq> r2 \<longleftrightarrow> \<not> joined acc (ei ?e) (ej ?e)"
      "uf_rel nodes2 N acc"
      "r1 \<noteq> r2 \<longrightarrow> (\<exists>nodes3. fusion nodes2 r1 r2 = Some nodes3 \<and> uf_rel nodes3 N (acc @ [?e]))"
      by blast
    show ?thesis
    proof (cases "r1 = r2")
      case same: True
      then have j: "joined acc (ei ?e) (ej ?e)" using st(3) by simp
      have sel: "select_edges N acc (drop (nat edge) (take (nat M) edges))
          = select_edges N acc ?rest"
        unfolding dr using True j Suc.prems(5) by simp
      have "union_find_loop edges N M nodes edge numEdge tree
          = union_find_loop edges N M nodes2 (edge + 1) numEdge tree"
        using lt True idx Suc.prems(2) st(1,2) same by (subst union_find_loop.simps) simp
      moreover have "length (select_edges N acc ?rest) \<le> length tree"
        using Suc.prems(7) sel by simp
      note Suc.hyps(1) [OF n st(4) e0 Suc.prems(3,4,5,6) this]
      ultimately show ?thesis using sel by simp
    next
      case diff: False
      then have j: "\<not> joined acc (ei ?e) (ej ?e)" using st(3) by simp
      from diff st(5) obtain nodes3 where n3: "fusion nodes2 r1 r2 = Some nodes3"
        "uf_rel nodes3 N (acc @ [?e])"
        by blast
      have sel: "select_edges N acc (drop (nat edge) (take (nat M) edges))
          = select_edges N (acc @ [?e]) ?rest"
        unfolding dr using True j Suc.prems(5) by simp
      have ge: "length (acc @ [?e]) \<le> length (select_edges N (acc @ [?e]) ?rest)"
        by (rule length_select_edges_ge)
      have cap: "length (select_edges N (acc @ [?e]) ?rest) \<le> length tree"
        using Suc.prems(7) sel by simp
      have bnd: "0 \<le> numEdge" "nat numEdge < length tree" "nat numEdge = length acc"
        using ge cap Suc.prems(5) by simp_all
      let ?tree = "tree[nat numEdge := ?e]"
      have "union_find_loop edges N M nodes edge numEdge tree
          = union_find_loop edges N M nodes3 (edge + 1) (numEdge + 1) ?tree"
        using lt True idx Suc.prems(2) st(1,2) diff n3(1) bnd
        by (subst union_find_loop.simps) simp
      moreover have tk: "take (length (acc @ [?e])) ?tree = acc @ [?e]"
        using bnd Suc.prems(6) by (simp add: take_Suc_conv_app_nth)
      moreover have "numEdge + 1 = int (length (acc @ [?e]))" using Suc.prems(5) by simp
      moreover have "length (select_edges N (acc @ [?e]) ?rest) \<le> length ?tree"
        using cap by simp
      moreover note Suc.hyps(1) [OF n n3(2) e0 Suc.prems(3,4)]
      ultimately obtain tree' where t: "union_find_loop edges N M nodes edge numEdge tree
           = Some (int (length (select_edges N (acc @ [?e]) ?rest)), tree')"
         "take (length (select_edges N (acc @ [?e]) ?rest)) tree'
             = select_edges N (acc @ [?e]) ?rest"
         "drop (length (select_edges N (acc @ [?e]) ?rest)) tree'
             = drop (length (select_edges N (acc @ [?e]) ?rest)) ?tree"
         "length tree' = length ?tree"
        by metis
      from ge have "nat numEdge < length (select_edges N (acc @ [?e]) ?rest)"
        using bnd(3) by simp
      then have "drop (length (select_edges N (acc @ [?e]) ?rest)) ?tree
          = drop (length (select_edges N (acc @ [?e]) ?rest)) tree"
        by simp
      with t sel show ?thesis by simp
    qed
  qed
qed

lemma union_find_room:
  assumes "nat M \<le> length edges" and "\<forall>e \<in> set (take (nat M) edges). in_range N e"
    and "length (select_edges N [] (take (nat M) edges)) \<le> length tree"
  shows "\<exists>tree'. union_find edges N M tree
             = Some (int (length (select_edges N [] (take (nat M) edges))), tree')
      \<and> take (length (select_edges N [] (take (nat M) edges))) tree'
           = select_edges N [] (take (nat M) edges)
      \<and> drop (length (select_edges N [] (take (nat M) edges))) tree'
           = drop (length (select_edges N [] (take (nat M) edges))) tree
      \<and> length tree' = length tree"
proof -
  let ?sel = "select_edges N [] (take (nat M) edges)"
  have "length (select_edges N [] (drop (nat 0) (take (nat M) edges))) \<le> length tree"
    using assms(3) by simp
  from union_find_loop_correct [OF uf_rel_create_nodes _ assms(1,2) _ _ this, of 0]
  obtain tree' where "union_find edges N M tree = Some (int (length ?sel), tree')"
    "take (length ?sel) tree' = ?sel" "drop (length ?sel) tree' = drop (length ?sel) tree"
    "length tree' = length tree"
    unfolding union_find_def by auto
  then show ?thesis by blast
qed

lemma union_find_select:
  assumes "nat M \<le> length edges" and "\<forall>e \<in> set (take (nat M) edges). in_range N e"
    and "nat (N - 1) \<le> length tree"
  shows "\<exists>tree'. union_find edges N M tree
             = Some (int (length (select_edges N [] (take (nat M) edges))), tree')
      \<and> take (length (select_edges N [] (take (nat M) edges))) tree'
           = select_edges N [] (take (nat M) edges)
      \<and> drop (length (select_edges N [] (take (nat M) edges))) tree'
           = drop (length (select_edges N [] (take (nat M) edges))) tree"
proof -
  have "int (length (select_edges N [] (take (nat M) edges))) \<le> max 0 (N - 1)"
    using length_select_edges_le [of N "[]" "take (nat M) edges"] by simp
  then have "length (select_edges N [] (take (nat M) edges)) \<le> length tree"
    using assms(3) by linarith
  from union_find_room [OF assms(1,2) this] show ?thesis by blast
qed

text \<open>
  Claim C3, amended at \<open>N \<le> 0\<close>. For an edge array whose first \<open>M\<close> edges have their
  endpoints in \<open>[0, N)\<close> and a tree buffer of at least \<open>N - 1\<close> entries, \<open>union_find\<close>
  returns; the edges it has written to the front of the tree are, in input order, exactly
  the edges whose endpoints were not yet joined by the edges emitted before them (their
  roots differ when the edge is processed, and a union is made for each), up to the first
  \<open>N - 1\<close> of these; the rest of the buffer is unchanged; the result is the number of
  emitted edges, which is at most \<open>N - 1\<close> when \<open>N \<ge> 1\<close> and is 0 when \<open>N \<le> 0\<close>.
\<close>

theorem union_find_emits_unjoined_edges:
  assumes "nat M \<le> length edges" and "\<forall>e \<in> set (take (nat M) edges). in_range N e"
    and "nat (N - 1) \<le> length tree"
  shows "\<exists>numEdge tree'. union_find edges N M tree = Some (numEdge, tree')
      \<and> take (nat numEdge) tree' = select_edges N [] (take (nat M) edges)
      \<and> numEdge = int (length (select_edges N [] (take (nat M) edges)))
      \<and> drop (nat numEdge) tree' = drop (nat numEdge) tree
      \<and> (1 \<le> N \<longrightarrow> numEdge \<le> N - 1) \<and> (N \<le> 0 \<longrightarrow> numEdge = 0)"
proof -
  let ?sel = "select_edges N [] (take (nat M) edges)"
  from union_find_select [OF assms]
  obtain tree' where t: "union_find edges N M tree = Some (int (length ?sel), tree')"
    "take (length ?sel) tree' = ?sel" "drop (length ?sel) tree' = drop (length ?sel) tree"
    by blast
  have "int (length ?sel) \<le> max 0 (N - 1)"
    using length_select_edges_le [of N "[]" "take (nat M) edges"] by simp
  then have "(1 \<le> N \<longrightarrow> int (length ?sel) \<le> N - 1) \<and> (N \<le> 0 \<longrightarrow> int (length ?sel) = 0)"
    by auto
  with t show ?thesis by simp
qed

theorem union_find_emits_unjoined_edges_witness:
  "nat 4 \<le> length [\<lparr>ei = 0, ej = 1, ew = 1\<rparr>, \<lparr>ei = 1, ej = 2, ew = 2\<rparr>,
                     \<lparr>ei = 0, ej = 2, ew = 3\<rparr>, \<lparr>ei = 2, ej = 3, ew = 4\<rparr>]
   \<and> list_all (in_range 4) (take (nat 4) [\<lparr>ei = 0, ej = 1, ew = 1\<rparr>, \<lparr>ei = 1, ej = 2, ew = 2\<rparr>,
                     \<lparr>ei = 0, ej = 2, ew = 3\<rparr>, \<lparr>ei = 2, ej = 3, ew = 4\<rparr>])
   \<and> nat (4 - 1) \<le> length (replicate 3 \<lparr>ei = 0, ej = 0, ew = 0\<rparr>)
   \<and> union_find [\<lparr>ei = 0, ej = 1, ew = 1\<rparr>, \<lparr>ei = 1, ej = 2, ew = 2\<rparr>,
                 \<lparr>ei = 0, ej = 2, ew = 3\<rparr>, \<lparr>ei = 2, ej = 3, ew = 4\<rparr>] 4 4
        (replicate 3 \<lparr>ei = 0, ej = 0, ew = 0\<rparr>)
       = Some (3, [\<lparr>ei = 0, ej = 1, ew = 1\<rparr>, \<lparr>ei = 1, ej = 2, ew = 2\<rparr>,
                   \<lparr>ei = 2, ej = 3, ew = 4\<rparr>])
   \<and> select_edges 4 [] (take (nat 4) [\<lparr>ei = 0, ej = 1, ew = 1\<rparr>, \<lparr>ei = 1, ej = 2, ew = 2\<rparr>,
                 \<lparr>ei = 0, ej = 2, ew = 3\<rparr>, \<lparr>ei = 2, ej = 3, ew = 4\<rparr>])
       = [\<lparr>ei = 0, ej = 1, ew = 1\<rparr>, \<lparr>ei = 1, ej = 2, ew = 2\<rparr>, \<lparr>ei = 2, ej = 3, ew = 4\<rparr>]"
proof -
  let ?E = "[\<lparr>ei = 0, ej = 1, ew = 1\<rparr>, \<lparr>ei = 1, ej = 2, ew = 2\<rparr>,
             \<lparr>ei = 0, ej = 2, ew = 3\<rparr>, \<lparr>ei = 2, ej = 3, ew = 4\<rparr>]"
  let ?T = "replicate 3 \<lparr>ei = 0, ej = 0, ew = 0\<rparr>"
  have h1: "nat 4 \<le> length ?E" by simp
  have h2: "\<forall>e \<in> set (take (nat 4) ?E). in_range 4 e" by (simp add: in_range_def)
  have h3: "nat (4 - 1) \<le> length ?T" by simp
  have run: "union_find ?E 4 4 ?T
      = Some (3, [\<lparr>ei = 0, ej = 1, ew = 1\<rparr>, \<lparr>ei = 1, ej = 2, ew = 2\<rparr>, \<lparr>ei = 2, ej = 3, ew = 4\<rparr>])"
    by code_simp
  from union_find_emits_unjoined_edges [OF h1 h2 h3] run
  have "select_edges 4 [] (take (nat 4) ?E)
      = [\<lparr>ei = 0, ej = 1, ew = 1\<rparr>, \<lparr>ei = 1, ej = 2, ew = 2\<rparr>, \<lparr>ei = 2, ej = 3, ew = 4\<rparr>]"
    by auto
  with h1 h2 h3 run show ?thesis by (simp add: list_all_iff)
qed

theorem union_find_count_counterexample:
  "union_find [] 0 0 [] = Some (0, []) \<and> \<not> (0::int) \<le> 0 - 1"
  by (simp add: union_find_def union_find_loop.simps)

section \<open>Sequential Kruskal: the edge buffer and its zero padding\<close>

lemma buffer_write:
  "k < length edges \<Longrightarrow>
     take (Suc k) (edges[k := e]) = take k edges @ [e]
     \<and> drop (Suc k + m) (edges[k := e]) = drop (Suc k + m) edges"
  by (simp add: take_Suc_conv_app_nth)

lemma row_edges_end: "n \<le> j \<Longrightarrow> row_edges n adj i j = []"
  by (simp add: row_edges_def)

lemma row_edges_step:
  "j < n \<Longrightarrow> row_edges n adj i j =
     (if adj ! (i * n + j) \<noteq> 0
      then init_edge (int i) (int j) (adj ! (i * n + j)) # row_edges n adj i (Suc j)
      else row_edges n adj i (Suc j))"
  by (simp add: row_edges_def upt_conv_Cons)

lemma create_edges_row_correct:
  assumes "0 \<le> i" and "0 \<le> j" and "j \<le> N" and "nat (i * N + N) \<le> length adj"
    and "numEdge = int k"
    and "k + length (row_edges (nat N) adj (nat i) (nat j)) \<le> length edges"
    and "i < N" and "N * N \<le> 2 ^ 31"
  shows "create_edges_row N adj i j edges numEdge =
     Some (take k edges @ row_edges (nat N) adj (nat i) (nat j)
             @ drop (k + length (row_edges (nat N) adj (nat i) (nat j))) edges,
           int (k + length (row_edges (nat N) adj (nat i) (nat j))))"
  using assms
proof (induction "nat (N - j)" arbitrary: j edges k numEdge)
  case 0
  then have "j = N" by simp
  then show ?case
    using "0.prems" by (subst create_edges_row.simps) (simp add: row_edges_end)
next
  case (Suc d)
  then have lt: "j < N" by linarith
  let ?n = "nat N" and ?i = "nat i" and ?j = "nat j"
  have jn: "?j < ?n" using lt Suc.prems(2) by simp
  have idx: "nat (i * N + j) = ?i * ?n + ?j"
    using Suc.prems(1,2) lt by (simp add: nat_add_distrib nat_mult_distrib)
  have "?i * ?n + ?j < ?i * ?n + ?n" using jn by simp
  also have "\<dots> = nat (i * N + N)"
    using Suc.prems(1,2) lt by (simp add: nat_add_distrib nat_mult_distrib)
  finally have inb: "nat (i * N + j) < length adj" using Suc.prems(4) idx by simp
  have nonneg: "0 \<le> i * N + j" using Suc.prems(1,2) lt by simp
  have ix: "int32 (i * N + j) = i * N + j"
    using Suc.prems(1,7,2) lt Suc.prems(8) by (rule int32_index)
  have d: "d = nat (N - (j + 1))" using Suc.hyps(2) by linarith
  have sj: "nat (j + 1) = Suc ?j" using Suc.prems(2) by simp
  have ii: "int ?i = i" "int ?j = j" using Suc.prems(1,2) by simp_all
  show ?case
  proof (cases "adj ! (?i * ?n + ?j) = 0")
    case True
    have re: "row_edges ?n adj ?i ?j = row_edges ?n adj ?i (Suc ?j)"
      using True jn by (simp add: row_edges_step)
    have "create_edges_row N adj i j edges numEdge
        = create_edges_row N adj i (j + 1) edges numEdge"
      using lt inb nonneg True idx by (subst create_edges_row.simps) (simp add: ix)
    also have "\<dots> = Some (take k edges @ row_edges ?n adj ?i (nat (j + 1))
             @ drop (k + length (row_edges ?n adj ?i (nat (j + 1)))) edges,
           int (k + length (row_edges ?n adj ?i (nat (j + 1)))))"
      by (rule Suc.hyps(1) [OF d Suc.prems(1)])
         (use Suc.prems lt re sj in simp_all)
    finally show ?thesis using re sj by simp
  next
    case False
    let ?e = "init_edge i j (adj ! nat (i * N + j))"
    let ?rest = "row_edges ?n adj ?i (Suc ?j)"
    have re: "row_edges ?n adj ?i ?j = ?e # ?rest"
      using False jn ii idx by (simp add: row_edges_step)
    have kb: "k < length edges" using Suc.prems(6) re by simp
    have "create_edges_row N adj i j edges numEdge
        = create_edges_row N adj i (j + 1) (edges[k := ?e]) (numEdge + 1)"
      using lt inb nonneg False idx kb Suc.prems(5)
      by (subst create_edges_row.simps) (simp add: ix)
    also have "\<dots> = Some (take (Suc k) (edges[k := ?e]) @ row_edges ?n adj ?i (nat (j + 1))
             @ drop (Suc k + length (row_edges ?n adj ?i (nat (j + 1)))) (edges[k := ?e]),
           int (Suc k + length (row_edges ?n adj ?i (nat (j + 1)))))"
      by (rule Suc.hyps(1) [OF d Suc.prems(1)])
         (use Suc.prems lt re sj in simp_all)
    finally show ?thesis
      using re sj buffer_write [OF kb, of ?e "length ?rest"] by simp
  qed
qed

definition rows_from :: "nat \<Rightarrow> int list \<Rightarrow> nat \<Rightarrow> Edge list" where
  "rows_from n adj i0 = concat (map (\<lambda>i. row_edges n adj i i) [i0..<n])"

lemma upper_edges_rows_from: "upper_edges n adj = rows_from n adj 0"
  by (simp add: upper_edges_def rows_from_def)

lemma rows_from_end: "n \<le> i \<Longrightarrow> rows_from n adj i = []"
  by (simp add: rows_from_def)

lemma rows_from_step:
  "i < n \<Longrightarrow> rows_from n adj i = row_edges n adj i i @ rows_from n adj (Suc i)"
  by (simp add: rows_from_def upt_conv_Cons)

lemma take_block: "length A = k \<Longrightarrow> take (k + length R) (A @ R @ D) = A @ R"
  by simp

lemma drop_block: "length A = k \<Longrightarrow> drop (k + length R + m) (A @ R @ D) = drop m D"
  by simp

lemma buffer_block:
  assumes "k + length R \<le> length edges" and that: "m = length S"
  shows "take (k + length R) (take k edges @ R @ drop (k + length R) edges) = take k edges @ R"
    and "drop (k + length R + m) (take k edges @ R @ drop (k + length R) edges)
         = drop (k + length (R @ S)) edges"
proof -
  have l: "length (take k edges) = k" using assms by simp
  show "take (k + length R) (take k edges @ R @ drop (k + length R) edges) = take k edges @ R"
    using l by (rule take_block)
  have "drop (k + length R + m) (take k edges @ R @ drop (k + length R) edges)
      = drop m (drop (k + length R) edges)"
    using l by (rule drop_block)
  also have "\<dots> = drop (k + length (R @ S)) edges"
    using that by (simp add: add.commute add.left_commute)
  finally show "drop (k + length R + m) (take k edges @ R @ drop (k + length R) edges)
         = drop (k + length (R @ S)) edges" .
qed

lemma create_edges_loop_correct:
  assumes "0 \<le> i" and "i \<le> N" and "nat (N * N) \<le> length adj"
    and "numEdge = int k"
    and "k + length (rows_from (nat N) adj (nat i)) \<le> length edges"
    and "N * N \<le> 2 ^ 31"
  shows "create_edges_loop N adj i edges numEdge =
     Some (take k edges @ rows_from (nat N) adj (nat i)
             @ drop (k + length (rows_from (nat N) adj (nat i))) edges,
           int (k + length (rows_from (nat N) adj (nat i))))"
  using assms
proof (induction "nat (N - i)" arbitrary: i edges k numEdge)
  case 0
  then have "i = N" by simp
  then show ?case
    using "0.prems" by (subst create_edges_loop.simps) (simp add: rows_from_end)
next
  case (Suc d)
  then have lt: "i < N" by linarith
  let ?n = "nat N" and ?i = "nat i"
  let ?R = "row_edges ?n adj ?i ?i" and ?rest = "rows_from ?n adj (Suc ?i)"
  have rf: "rows_from ?n adj ?i = ?R @ ?rest"
    using lt Suc.prems(1) by (intro rows_from_step) simp
  have "(i + 1) * N \<le> N * N"
    using lt Suc.prems(1) by (intro mult_right_mono) simp_all
  then have rowb: "nat (i * N + N) \<le> length adj"
    using Suc.prems(3) by (simp add: algebra_simps)
  have kR: "k + length ?R \<le> length edges" using Suc.prems(5) rf by simp
  let ?edges1 = "take k edges @ ?R @ drop (k + length ?R) edges"
  have row: "create_edges_row N adj i i edges numEdge = Some (?edges1, int (k + length ?R))"
    using Suc.prems(1) lt rowb Suc.prems(4) kR Suc.prems(6)
    by (intro create_edges_row_correct) simp_all
  have d: "d = nat (N - (i + 1))" using Suc.hyps(2) by linarith
  have si: "nat (i + 1) = Suc ?i" using Suc.prems(1) by simp
  have len1: "length ?edges1 = length edges" using kR by simp
  have "create_edges_loop N adj i edges numEdge
      = create_edges_loop N adj (i + 1) ?edges1 (int (k + length ?R))"
    using lt row by (subst create_edges_loop.simps) simp
  also have "\<dots> = Some (take (k + length ?R) ?edges1 @ rows_from ?n adj (nat (i + 1))
             @ drop (k + length ?R + length (rows_from ?n adj (nat (i + 1)))) ?edges1,
           int (k + length ?R + length (rows_from ?n adj (nat (i + 1)))))"
    by (rule Suc.hyps(1) [OF d _ _ Suc.prems(3) refl])
       (use Suc.prems lt rf si len1 in simp_all)
  finally have "create_edges_loop N adj i edges numEdge
      = Some (take (k + length ?R) ?edges1 @ ?rest
             @ drop (k + length ?R + length ?rest) ?edges1,
           int (k + length ?R + length ?rest))"
    unfolding si .
  then show ?case
    unfolding buffer_block(1) [OF kR refl] buffer_block(2) [OF kR refl]
    by (simp only: rf append_assoc length_append add.assoc)
qed

lemma create_edges_calloc:
  assumes "0 \<le> N" and "nat (N * N) \<le> length adj"
    and "length (upper_edges (nat N) adj) \<le> nat M"
    and "N * N \<le> 2 ^ 31"
  shows "create_edges N adj (calloc_edges M) =
     Some (upper_edges (nat N) adj
             @ replicate (nat M - length (upper_edges (nat N) adj)) zero_edge,
           int (length (upper_edges (nat N) adj)))"
  using create_edges_loop_correct [of 0 N adj 0 0 "calloc_edges M"] assms
  by (simp add: create_edges_def upper_edges_rows_from calloc_edges_def)

subsection \<open>Sorting\<close>

lemma mset_insort_cmp: "mset (insort_cmp c x xs) = add_mset x (mset xs)"
  by (induction xs) simp_all

lemma mset_sort_cmp: "mset (sort_cmp c xs) = mset xs"
  by (induction xs) (simp_all add: sort_cmp_def mset_insort_cmp)

lemma set_sort_cmp: "set (sort_cmp c xs) = set xs"
  using mset_sort_cmp [of c xs] by (metis set_mset_mset)

lemma length_sort_cmp: "length (sort_cmp c xs) = length xs"
  using mset_sort_cmp [of c xs] by (metis size_mset)

lemma sort_cmp_Cons: "sort_cmp c (x # xs) = insort_cmp c x (sort_cmp c xs)"
  by (simp add: sort_cmp_def)

lemma insort_cmp_past:
  "0 < c x z \<Longrightarrow> insort_cmp c x (replicate k z @ ys) = replicate k z @ insort_cmp c x ys"
  by (induction k) simp_all

lemma sort_cmp_replicate: "c z z \<le> 0 \<Longrightarrow> sort_cmp c (replicate k z) = replicate k z"
proof (induction k)
  case 0
  show ?case by (simp add: sort_cmp_def)
next
  case (Suc k)
  then show ?case by (cases k) (simp_all add: sort_cmp_Cons)
qed

lemma sort_cmp_padding:
  assumes "c z z \<le> 0" and "\<forall>g \<in> set gs. 0 < c g z"
  shows "sort_cmp c (gs @ replicate k z) = replicate k z @ sort_cmp c gs"
  using assms(2)
proof (induction gs)
  case Nil
  show ?case using assms(1) by (simp add: sort_cmp_replicate) (simp add: sort_cmp_def)
next
  case (Cons g gs)
  then show ?case by (simp add: sort_cmp_Cons insort_cmp_past)
qed

lemma cmp_edges_zero: "cmp_edges zero_edge zero_edge = 0"
  by (simp add: cmp_edges_def zero_edge_def int32_def)

lemma cmp_edges_positive_weight:
  "0 < ew g \<Longrightarrow> ew g < 2 ^ 31 \<Longrightarrow> 0 < cmp_edges g zero_edge"
  by (simp add: cmp_edges_def zero_edge_def int32_id is_int32_def)

lemma select_edges_subset:
  "set (select_edges N acc es) \<subseteq> set acc \<union> {e \<in> set es. ei e \<noteq> ej e}"
proof (induction es arbitrary: acc)
  case Nil
  show ?case by simp
next
  case (Cons e es)
  have "ei e \<noteq> ej e" if "\<not> joined acc (ei e) (ej e)"
    using that joined_refl [of acc "ei e"] by auto
  with Cons [of acc] Cons [of "acc @ [e]"] show ?case by auto
qed

lemma union_find_small: "N \<le> 1 \<Longrightarrow> union_find edges N M tree = Some (0, tree)"
  by (simp add: union_find_def union_find_loop.simps)

lemma upper_edges_member:
  assumes "e \<in> set (upper_edges n adj)"
  shows "\<exists>i j. i \<le> j \<and> j < n \<and> adj ! (i * n + j) \<noteq> 0
           \<and> e = \<lparr>ei = int i, ej = int j, ew = adj ! (i * n + j)\<rparr>"
proof -
  from assms obtain i j where "i < n" "i \<le> j" "j < n" "adj ! (i * n + j) \<noteq> 0"
    "e = init_edge (int i) (int j) (adj ! (i * n + j))"
    by (auto simp: upper_edges_def row_edges_def)
  then show ?thesis by (auto simp: init_edge_def)
qed

text \<open>
  Claim C10. \<open>sequential_kruskal\<close> allocates \<open>M\<close> zeroed edges; \<open>create_edges\<close> fills
  the front with the non-zero entries of the upper triangle and leaves the surplus
  entries \<open>(0, 0, 0)\<close>; all \<open>M\<close> entries are sorted and given to \<open>union_find\<close>. With
  non-negative int weights the zero entries sort to the front, and none of them is ever
  emitted: when the graph has at most \<open>M\<close> edges, the emitted tree holds only edges of the
  graph. The matrix has at most \<open>2^31\<close> entries (\<open>N \<le> 46340\<close>): there the 32-bit index
  \<open>i*N+j\<close> of \<open>create_edges\<close> does not wrap.
\<close>

theorem sequential_kruskal_zero_padding:
  assumes "0 \<le> N" and "0 \<le> M" and "nat (N * N) \<le> length adj"
    and "\<forall>x \<in> set adj. 0 \<le> x \<and> x < 2 ^ 31"
    and "length (upper_edges (nat N) adj) \<le> nat M"
    and "nat (N - 1) \<le> length tree"
    and "N * N \<le> 2 ^ 31"
  shows "\<exists>nbEdges tree'. sequential_kruskal N M adj tree = Some (nbEdges, tree')
      \<and> set (take (nat nbEdges) tree') \<subseteq> set (upper_edges (nat N) adj)
      \<and> zero_edge \<notin> set (take (nat nbEdges) tree')
      \<and> create_edges N adj (calloc_edges M)
          = Some (upper_edges (nat N) adj
                    @ replicate (nat M - length (upper_edges (nat N) adj)) zero_edge,
                  int (length (upper_edges (nat N) adj)))
      \<and> qsort (upper_edges (nat N) adj
                 @ replicate (nat M - length (upper_edges (nat N) adj)) zero_edge) M cmp_edges
          = replicate (nat M - length (upper_edges (nat N) adj)) zero_edge
              @ sort_cmp cmp_edges (upper_edges (nat N) adj)"
proof -
  let ?U = "upper_edges (nat N) adj"
  let ?Z = "replicate (nat M - length ?U) zero_edge"
  let ?S = "qsort (?U @ ?Z) M cmp_edges"
  have ce: "create_edges N adj (calloc_edges M) = Some (?U @ ?Z, int (length ?U))"
    using assms(1,3,5,7) by (rule create_edges_calloc)
  have lenUZ: "length (?U @ ?Z) = nat M" using assms(5) by simp
  have mem: "0 \<le> ei e \<and> ei e \<le> ej e \<and> ej e < N \<and> 0 < ew e \<and> ew e < 2 ^ 31"
    if "e \<in> set ?U" for e
  proof -
    from upper_edges_member [OF that]
    obtain i j where ij: "i \<le> j" "j < nat N" "adj ! (i * nat N + j) \<noteq> 0"
      "e = \<lparr>ei = int i, ej = int j, ew = adj ! (i * nat N + j)\<rparr>"
      by blast
    have "i * nat N + j < i * nat N + nat N" using ij(2) by simp
    also have "\<dots> = Suc i * nat N" by simp
    also have "\<dots> \<le> nat N * nat N" using ij(1,2) by (intro mult_le_mono1) simp
    finally have "i * nat N + j < length adj"
      using assms(1,3) by (simp add: nat_mult_distrib)
    then have "adj ! (i * nat N + j) \<in> set adj" by (rule nth_mem)
    with assms(4) ij show ?thesis by auto
  qed
  have srt: "?S = ?Z @ sort_cmp cmp_edges ?U"
  proof -
    have "sort_cmp cmp_edges (?U @ ?Z) = ?Z @ sort_cmp cmp_edges ?U"
      by (rule sort_cmp_padding)
         (use mem in \<open>auto simp: cmp_edges_zero intro: cmp_edges_positive_weight\<close>)
    then show ?thesis using lenUZ by (simp add: qsort_def)
  qed
  have setS: "set (take (nat M) ?S) \<subseteq> set ?U \<union> {zero_edge}"
    unfolding srt by (auto simp: set_sort_cmp dest: in_set_takeD)
  have sk: "sequential_kruskal N M adj tree = union_find ?S N M tree"
    using assms(2) ce by (simp add: sequential_kruskal_def)
  have lenS: "nat M \<le> length ?S"
    unfolding srt using assms(5) by (simp add: length_sort_cmp)
  show ?thesis
  proof (cases "N \<le> 1")
    case True
    then show ?thesis using sk ce srt by (simp add: union_find_small)
  next
    case False
    have rng: "\<forall>e \<in> set (take (nat M) ?S). in_range N e"
    proof
      fix e assume "e \<in> set (take (nat M) ?S)"
      with setS have "e \<in> set ?U \<or> e = zero_edge" by auto
      then show "in_range N e"
        using mem [of e] False by (auto simp: in_range_def zero_edge_def)
    qed
    from union_find_select [OF lenS rng assms(6)]
    obtain nbEdges tree' where uf: "union_find ?S N M tree = Some (nbEdges, tree')"
      "take (nat nbEdges) tree' = select_edges N [] (take (nat M) ?S)"
      by (metis nat_int)
    have sub: "set (take (nat nbEdges) tree') \<subseteq> {e \<in> set (take (nat M) ?S). ei e \<noteq> ej e}"
      unfolding uf(2) using select_edges_subset [of N "[]" "take (nat M) ?S"] by simp
    have z: "zero_edge \<notin> set (take (nat nbEdges) tree')"
      using sub by (auto simp: zero_edge_def)
    have "set (take (nat nbEdges) tree') \<subseteq> set ?U"
    proof
      fix e assume e: "e \<in> set (take (nat nbEdges) tree')"
      with sub have "e \<in> set (take (nat M) ?S)" "ei e \<noteq> ej e" by auto
      with setS have "e \<in> set ?U \<or> e = zero_edge" by auto
      with \<open>ei e \<noteq> ej e\<close> show "e \<in> set ?U" by (auto simp: zero_edge_def)
    qed
    with z uf(1) sk ce srt show ?thesis by simp
  qed
qed

theorem sequential_kruskal_zero_padding_witness:
  "(0::int) \<le> 4 \<and> (0::int) \<le> 7
   \<and> nat (4 * 4) \<le> length [0, 1, 4, 0, 1, 0, 2, 5, 4, 2, 0, 3, 0, 5, 3, 0 :: int]
   \<and> list_all (\<lambda>x. 0 \<le> x \<and> x < 2 ^ 31) [0, 1, 4, 0, 1, 0, 2, 5, 4, 2, 0, 3, 0, 5, 3, 0 :: int]
   \<and> length (upper_edges (nat 4) [0, 1, 4, 0, 1, 0, 2, 5, 4, 2, 0, 3, 0, 5, 3, 0]) \<le> nat 7
   \<and> nat (4 - 1) \<le> length (calloc_edges 3) \<and> (4::int) * 4 \<le> 2 ^ 31
   \<and> sequential_kruskal 4 7 [0, 1, 4, 0, 1, 0, 2, 5, 4, 2, 0, 3, 0, 5, 3, 0] (calloc_edges 3)
       = Some (3, [\<lparr>ei = 0, ej = 1, ew = 1\<rparr>, \<lparr>ei = 1, ej = 2, ew = 2\<rparr>, \<lparr>ei = 2, ej = 3, ew = 3\<rparr>])
   \<and> set (take (nat 3) [\<lparr>ei = 0, ej = 1, ew = 1\<rparr>, \<lparr>ei = 1, ej = 2, ew = 2\<rparr>, \<lparr>ei = 2, ej = 3, ew = 3\<rparr>])
       \<subseteq> set (upper_edges (nat 4) [0, 1, 4, 0, 1, 0, 2, 5, 4, 2, 0, 3, 0, 5, 3, 0])
   \<and> qsort (upper_edges (nat 4) [0, 1, 4, 0, 1, 0, 2, 5, 4, 2, 0, 3, 0, 5, 3, 0]
              @ replicate (nat 7 - length (upper_edges (nat 4)
                  [0, 1, 4, 0, 1, 0, 2, 5, 4, 2, 0, 3, 0, 5, 3, 0])) zero_edge) 7 cmp_edges
       = replicate (nat 7 - length (upper_edges (nat 4)
                  [0, 1, 4, 0, 1, 0, 2, 5, 4, 2, 0, 3, 0, 5, 3, 0])) zero_edge
          @ sort_cmp cmp_edges (upper_edges (nat 4) [0, 1, 4, 0, 1, 0, 2, 5, 4, 2, 0, 3, 0, 5, 3, 0])"
proof -
  let ?adj = "[0, 1, 4, 0, 1, 0, 2, 5, 4, 2, 0, 3, 0, 5, 3, 0 :: int]"
  have h1: "(0::int) \<le> 4" and h2: "(0::int) \<le> 7" by simp_all
  have h3: "nat (4 * 4) \<le> length ?adj" by simp
  have h4: "\<forall>x \<in> set ?adj. 0 \<le> x \<and> x < 2 ^ 31" by simp
  have h5: "length (upper_edges (nat 4) ?adj) \<le> nat 7" by code_simp
  have h6: "nat (4 - 1) \<le> length (calloc_edges 3)" by (simp add: calloc_edges_def)
  have h7: "(4::int) * 4 \<le> 2 ^ 31" by simp
  have run: "sequential_kruskal 4 7 ?adj (calloc_edges 3)
      = Some (3, [\<lparr>ei = 0, ej = 1, ew = 1\<rparr>, \<lparr>ei = 1, ej = 2, ew = 2\<rparr>, \<lparr>ei = 2, ej = 3, ew = 3\<rparr>])"
    by code_simp
  from sequential_kruskal_zero_padding [OF h1 h2 h3 h4 h5 h6 h7] run
  have "set (take (nat 3) [\<lparr>ei = 0, ej = 1, ew = 1\<rparr>, \<lparr>ei = 1, ej = 2, ew = 2\<rparr>, \<lparr>ei = 2, ej = 3, ew = 3\<rparr>])
       \<subseteq> set (upper_edges (nat 4) ?adj)"
    and "qsort (upper_edges (nat 4) ?adj
              @ replicate (nat 7 - length (upper_edges (nat 4) ?adj)) zero_edge) 7 cmp_edges
       = replicate (nat 7 - length (upper_edges (nat 4) ?adj)) zero_edge
          @ sort_cmp cmp_edges (upper_edges (nat 4) ?adj)"
    by auto
  with h1 h2 h3 h4 h5 h6 h7 run show ?thesis
    unfolding list_all_iff by blast
qed

section \<open>The binary heap: order and contents\<close>

subsection \<open>The order on edges with non-negative int fields\<close>

definition edge_le :: "Edge \<Rightarrow> Edge \<Rightarrow> bool" where
  "edge_le a b \<longleftrightarrow> \<not> edge_before b a"

definition canon :: "Edge list \<Rightarrow> bool" where
  "canon d \<longleftrightarrow> (\<forall>e \<in> set d. nonneg_edge e)"

lemma edge_le_refl: "edge_le a a"
  by (simp add: edge_le_def edge_before_def)

lemma edge_le_trans: "edge_le a b \<Longrightarrow> edge_le b c \<Longrightarrow> edge_le a c"
  unfolding edge_le_def edge_before_def by auto

lemma edge_before_le: "edge_before a b \<Longrightarrow> edge_le a b"
  unfolding edge_le_def edge_before_def by auto

lemma edge_le_total: "\<not> edge_le a b \<Longrightarrow> edge_le b a"
  unfolding edge_le_def edge_before_def by auto

lemma cmp_edges_canonical:
  assumes "nonneg_edge a" and "nonneg_edge b"
  shows "cmp_edges a b =
     (if ew a \<noteq> ew b then ew a - ew b
      else if ei a \<noteq> ei b then ei a - ei b
      else ej a - ej b)"
  by (rule cmp_edges_exact)
     (use assms in \<open>simp_all add: nonneg_edge_def canonical_def is_int32_def\<close>)

lemma cmp_pos:
  "nonneg_edge a \<Longrightarrow> nonneg_edge b \<Longrightarrow> 0 < cmp_edges a b \<longleftrightarrow> edge_before b a"
  by (simp add: cmp_edges_canonical edge_before_def)

lemma cmp_neg:
  "nonneg_edge a \<Longrightarrow> nonneg_edge b \<Longrightarrow> cmp_edges a b < 0 \<longleftrightarrow> edge_before a b"
  by (simp add: cmp_edges_canonical edge_before_def)

lemma cmp_le:
  "nonneg_edge a \<Longrightarrow> nonneg_edge b \<Longrightarrow> cmp_edges a b \<le> 0 \<longleftrightarrow> edge_le a b"
  using cmp_pos [of a b] by (auto simp: edge_le_def)

subsection \<open>Swapping two slots\<close>

lemma length_swap [simp]: "length (swap_edges d a b) = length d"
  by (simp add: swap_edges_def)

lemma nth_swap:
  "a < length d \<Longrightarrow> b < length d \<Longrightarrow>
     swap_edges d a b ! k = (if k = b then d ! a else if k = a then d ! b else d ! k)"
  by (simp add: swap_edges_def nth_list_update)

lemma set_swap: "a < length d \<Longrightarrow> b < length d \<Longrightarrow> set (swap_edges d a b) = set d"
  unfolding swap_edges_def by (metis mset_swap set_mset_mset)

lemma canon_swap: "a < length d \<Longrightarrow> b < length d \<Longrightarrow> canon d \<Longrightarrow> canon (swap_edges d a b)"
  by (simp add: canon_def set_swap)

definition items :: "Edge list \<Rightarrow> nat \<Rightarrow> Edge multiset" where
  "items d n = mset (drop 1 (take n d))"

lemma items_swap:
  assumes "1 \<le> a" "a < n" "1 \<le> b" "b < n" "n \<le> length d"
  shows "items (swap_edges d a b) n = items d n"
proof -
  let ?t = "take n d"
  have t: "take n (swap_edges d a b) = ?t[a := ?t ! b, b := ?t ! a]"
    using assms by (simp add: swap_edges_def take_update_swap)
  let ?u = "drop 1 ?t"
  have u: "drop 1 (?t[a := ?t ! b, b := ?t ! a]) = ?u[a - 1 := ?u ! (b - 1), b - 1 := ?u ! (a - 1)]"
    using assms by (simp add: drop_update_swap)
  have "items (swap_edges d a b) n = mset (?u[a - 1 := ?u ! (b - 1), b - 1 := ?u ! (a - 1)])"
    by (simp only: items_def t u)
  also have "\<dots> = mset ?u"
    using assms by (intro mset_swap) simp_all
  finally show ?thesis by (simp only: items_def)
qed

lemma drop_swap: "a < n \<Longrightarrow> b < n \<Longrightarrow> drop n (swap_edges d a b) = drop n d"
  by (simp add: swap_edges_def)

subsection \<open>Sifting up and down\<close>

definition heap_ok :: "Edge list \<Rightarrow> nat \<Rightarrow> bool" where
  "heap_ok d n \<longleftrightarrow> (\<forall>k. 2 \<le> k \<and> k < n \<longrightarrow> edge_le (d ! (k div 2)) (d ! k))"

definition up_ok :: "Edge list \<Rightarrow> nat \<Rightarrow> nat \<Rightarrow> bool" where
  "up_ok d n x \<longleftrightarrow>
     (\<forall>k. 2 \<le> k \<and> k < n \<and> k \<noteq> x \<longrightarrow> edge_le (d ! (k div 2)) (d ! k))
     \<and> (\<forall>k. 2 \<le> k \<and> k < n \<and> k div 2 = x \<and> 2 \<le> x \<longrightarrow> edge_le (d ! (x div 2)) (d ! k))"

definition down_ok :: "Edge list \<Rightarrow> nat \<Rightarrow> nat \<Rightarrow> bool" where
  "down_ok d n x \<longleftrightarrow>
     (\<forall>k. 2 \<le> k \<and> k < n \<and> k div 2 \<noteq> x \<longrightarrow> edge_le (d ! (k div 2)) (d ! k))
     \<and> (\<forall>k. 2 \<le> k \<and> k < n \<and> k div 2 = x \<and> 2 \<le> x \<longrightarrow> edge_le (d ! (x div 2)) (d ! k))"

lemma up_ok_swap:
  assumes up: "up_ok d n x" and x: "2 \<le> x" "x < n" "n \<le> length d"
    and lt: "edge_before (d ! x) (d ! (x div 2))"
  shows "up_ok (swap_edges d (x div 2) x) n (x div 2)"
proof -
  let ?p = "x div 2"
  let ?d = "swap_edges d ?p x"
  have p: "1 \<le> ?p" "?p \<noteq> x" "?p < length d" "x < length d" using x by auto
  have nth: "?d ! k = (if k = x then d ! ?p else if k = ?p then d ! x else d ! k)" for k
    using nth_swap [of ?p d x k] p by simp
  have A: "edge_le (d ! (k div 2)) (d ! k)" if "2 \<le> k" "k < n" "k \<noteq> x" for k
    using up that by (simp add: up_ok_def)
  have B: "edge_le (d ! ?p) (d ! k)" if "2 \<le> k" "k < n" "k div 2 = x" for k
    using up that x by (simp add: up_ok_def)
  have xp: "edge_le (d ! x) (d ! ?p)" using lt by (rule edge_before_le)
  show ?thesis
    unfolding up_ok_def
  proof (intro conjI allI impI)
    fix k assume k: "2 \<le> k \<and> k < n \<and> k \<noteq> ?p"
    consider "k = x" | "k \<noteq> x" "k div 2 = ?p" | "k \<noteq> x" "k div 2 = x"
      | "k \<noteq> x" "k div 2 \<noteq> ?p" "k div 2 \<noteq> x" by blast
    then show "edge_le (?d ! (k div 2)) (?d ! k)"
    proof cases
      case 1
      with p xp show ?thesis by (simp add: nth)
    next
      case 2
      have "edge_le (d ! ?p) (d ! k)" using A [of k] k 2 by simp
      with xp have "edge_le (d ! x) (d ! k)" by (rule edge_le_trans)
      with 2 k p show ?thesis by (simp add: nth)
    next
      case 3
      have "edge_le (d ! ?p) (d ! k)" using B [of k] k 3 by simp
      with 3 k p show ?thesis by (simp add: nth)
    next
      case 4
      with A [of k] k show ?thesis by (simp add: nth)
    qed
  next
    fix k assume k: "2 \<le> k \<and> k < n \<and> k div 2 = ?p \<and> 2 \<le> ?p"
    have pp: "?p div 2 \<noteq> ?p" "?p div 2 \<noteq> x" using k by auto
    have g: "?d ! (?p div 2) = d ! (?p div 2)" using pp by (simp add: nth)
    have gp: "edge_le (d ! (?p div 2)) (d ! ?p)" using A [of ?p] k p x by simp
    show "edge_le (?d ! (?p div 2)) (?d ! k)"
    proof (cases "k = x")
      case True
      with g gp show ?thesis by (simp add: nth)
    next
      case False
      have kp: "k \<noteq> ?p" using k by auto
      have "edge_le (d ! ?p) (d ! k)" using A [of k] k False by simp
      with gp have "edge_le (d ! (?p div 2)) (d ! k)" by (rule edge_le_trans)
      with g False kp show ?thesis by (simp add: nth)
    qed
  qed
qed

lemma down_ok_swap:
  assumes dn: "down_ok d n x" and x: "1 \<le> x" and c: "c = 2 * x \<or> c = 2 * x + 1"
    and cn: "c < n" "n \<le> length d"
    and le: "edge_le (d ! c) (d ! x)"
    and sib: "\<And>s. s = 2 * x \<or> s = 2 * x + 1 \<Longrightarrow> s < n \<Longrightarrow> edge_le (d ! c) (d ! s)"
  shows "down_ok (swap_edges d x c) n c"
proof -
  let ?d = "swap_edges d x c"
  have xc: "x \<noteq> c" "c div 2 = x" "x < length d" "c < length d" using x c cn by auto
  have nth: "?d ! k = (if k = c then d ! x else if k = x then d ! c else d ! k)" for k
    using nth_swap [of x d c k] xc by simp
  have A: "edge_le (d ! (k div 2)) (d ! k)" if "2 \<le> k" "k < n" "k div 2 \<noteq> x" for k
    using dn that by (simp add: down_ok_def)
  have B: "edge_le (d ! (x div 2)) (d ! k)" if "2 \<le> k" "k < n" "k div 2 = x" "2 \<le> x" for k
    using dn that by (simp add: down_ok_def)
  show ?thesis
    unfolding down_ok_def
  proof (intro conjI allI impI)
    fix k assume k: "2 \<le> k \<and> k < n \<and> k div 2 \<noteq> c"
    consider "k div 2 = x" | "k = x" | "k \<noteq> x" "k div 2 \<noteq> x" by blast
    then show "edge_le (?d ! (k div 2)) (?d ! k)"
    proof cases
      case 1
      then have kx: "k \<noteq> x" "k = 2 * x \<or> k = 2 * x + 1" using x by auto
      show ?thesis
      proof (cases "k = c")
        case True
        with 1 xc le show ?thesis by (simp add: nth)
      next
        case False
        have "edge_le (d ! c) (d ! k)" using sib [of k] kx k by simp
        with 1 False kx xc show ?thesis by (simp add: nth)
      qed
    next
      case 2
      then have x2: "2 \<le> x" using k by simp
      have g: "x div 2 \<noteq> x" "x div 2 \<noteq> c" using x2 c by auto
      have "edge_le (d ! (x div 2)) (d ! c)" using B [of c] xc cn x2 by simp
      with 2 g xc show ?thesis by (simp add: nth)
    next
      case 3
      then have "k \<noteq> c" using xc by auto
      with 3 k A [of k] show ?thesis by (simp add: nth)
    qed
  next
    fix k assume k: "2 \<le> k \<and> k < n \<and> k div 2 = c \<and> 2 \<le> c"
    then have kc: "k \<noteq> c" "k \<noteq> x" using xc by auto
    have "edge_le (d ! c) (d ! k)" using A [of k] k xc by simp
    with kc xc show "edge_le (?d ! (c div 2)) (?d ! k)" by (simp add: nth)
  qed
qed

lemma canon_nth: "canon d \<Longrightarrow> k < length d \<Longrightarrow> nonneg_edge (d ! k)"
  by (simp add: canon_def)

lemma add_edge_loop_correct:
  "canon d \<Longrightarrow> up_ok d n x \<Longrightarrow> x < n \<Longrightarrow> n \<le> length d \<Longrightarrow>
     \<exists>d'. add_edge_loop d x = Some d' \<and> heap_ok d' n \<and> length d' = length d \<and> canon d'
        \<and> (1 \<le> x \<longrightarrow> items d' n = items d n) \<and> drop n d' = drop n d"
proof (induction d x rule: add_edge_loop.induct)
  case (1 d node)
  note cn = "1.prems"(1) and up = "1.prems"(2) and xn = "1.prems"(3) and nl = "1.prems"(4)
  let ?p = "node div 2"
  show ?case
  proof (cases "hfather node = 0")
    case True
    then have small: "node < 2" by (auto simp: hfather_def)
    have "add_edge_loop d node = Some d"
      using True by (subst add_edge_loop.simps) simp
    moreover have "heap_ok d n"
      using up small by (auto simp: heap_ok_def up_ok_def)
    ultimately show ?thesis using cn by simp
  next
    case False
    then have x2: "2 \<le> node" by (auto simp: hfather_def)
    have bnd: "node < length d" "?p < length d" "1 \<le> ?p" "?p < n" "?p < node"
      using x2 xn nl by auto
    have can: "nonneg_edge (d ! node)" "nonneg_edge (d ! ?p)"
      using cn bnd by (simp_all add: canon_nth)
    show ?thesis
    proof (cases "cmp_edges (d ! ?p) (d ! node) > 0")
      case gt: True
      then have lt: "edge_before (d ! node) (d ! ?p)" using can by (simp add: cmp_pos)
      let ?d = "swap_edges d ?p node"
      have "\<exists>d'. add_edge_loop ?d ?p = Some d' \<and> heap_ok d' n \<and> length d' = length ?d
          \<and> canon d' \<and> (1 \<le> ?p \<longrightarrow> items d' n = items ?d n) \<and> drop n d' = drop n ?d"
        using "1.IH" [unfolded hfather_def, OF _ _ gt canon_swap [OF bnd(2,1) cn]
            up_ok_swap [OF up x2 xn nl lt]] False bnd nl
        by (simp add: hfather_def)
      then obtain d' where d': "add_edge_loop ?d ?p = Some d'" "heap_ok d' n"
        "length d' = length d" "canon d'" "items d' n = items ?d n" "drop n d' = drop n ?d"
        using bnd by auto
      have "add_edge_loop d node = Some d'"
        using False bnd gt d'(1) by (subst add_edge_loop.simps) (simp add: hfather_def)
      moreover have "items ?d n = items d n"
        using bnd xn nl x2 by (intro items_swap) simp_all
      moreover have "drop n ?d = drop n d" using bnd xn by (intro drop_swap) simp_all
      ultimately show ?thesis using d' by simp
    next
      case le: False
      then have "edge_le (d ! ?p) (d ! node)" using can by (simp add: cmp_le [symmetric])
      then have "heap_ok d n"
        using up by (auto simp: heap_ok_def up_ok_def)
      moreover have "add_edge_loop d node = Some d"
        using False bnd le by (subst add_edge_loop.simps) (simp add: hfather_def)
      ultimately show ?thesis using cn by simp
    qed
  qed
qed

lemma extract_min_loop_correct:
  "canon d \<Longrightarrow> down_ok d n x \<Longrightarrow> 1 \<le> x \<Longrightarrow> n \<le> length d \<Longrightarrow>
     \<exists>d'. extract_min_loop d n x = Some d' \<and> heap_ok d' n \<and> length d' = length d \<and> canon d'
        \<and> items d' n = items d n \<and> drop n d' = drop n d"
proof (induction d n x rule: extract_min_loop.induct)
  case (1 d cur node)
  note cn = "1.prems"(1) and dn = "1.prems"(2) and x1 = "1.prems"(3) and nl = "1.prems"(4)
  have x0: "node \<noteq> 0" using x1 by simp
  show ?case
  proof (cases "hleft node < cur")
    case False
    have "extract_min_loop d cur node = Some d"
      using False x0 by (subst extract_min_loop.simps) simp
    moreover have "heap_ok d cur"
      unfolding heap_ok_def
    proof (intro allI impI)
      fix k assume k: "2 \<le> k \<and> k < cur"
      have "k div 2 \<noteq> node" using False k by (auto simp: hleft_def)
      with dn k show "edge_le (d ! (k div 2)) (d ! k)" by (simp add: down_ok_def)
    qed
    ultimately show ?thesis using cn by simp
  next
    case True
    let ?l = "2 * node" and ?r = "2 * node + 1"
    define c where "c = (if hright node < cur \<and> cmp_edges (d ! hleft node) (d ! hright node) > 0
                        then hright node else hleft node)"
    have ln: "?l < cur" using True by (simp add: hleft_def)
    have cc: "c = ?l \<or> c = ?r" "c < cur"
      using True by (auto simp: c_def hleft_def hright_def)
    have bnd: "node < length d" "c < length d" "?l < length d" using cc ln nl x1 by auto
    have can: "nonneg_edge (d ! node)" "nonneg_edge (d ! c)" "nonneg_edge (d ! ?l)"
      using cn bnd by (simp_all add: canon_nth)
    have sib: "edge_le (d ! c) (d ! s)" if "s = ?l \<or> s = ?r" "s < cur" for s
    proof (cases "s = c")
      case True
      then show ?thesis by (simp add: edge_le_refl)
    next
      case sc: False
      have rn: "?r < cur" using that cc sc by auto
      then have canr: "nonneg_edge (d ! ?r)" using cn nl by (intro canon_nth) simp_all
      show ?thesis
      proof (cases "cmp_edges (d ! ?l) (d ! ?r) > 0")
        case True
        then have "c = ?r" using rn by (simp add: c_def hleft_def hright_def)
        moreover from True have "edge_before (d ! ?r) (d ! ?l)"
          using can(3) canr by (simp add: cmp_pos)
        ultimately show ?thesis using that sc by (auto intro: edge_before_le)
      next
        case False
        then have "c = ?l" by (simp add: c_def hleft_def hright_def)
        moreover from False have "edge_le (d ! ?l) (d ! ?r)"
          using can(3) canr by (simp add: cmp_le [symmetric])
        ultimately show ?thesis using that sc by auto
      qed
    qed
    show ?thesis
    proof (cases "cmp_edges (d ! node) (d ! c) < 0")
      case lt: True
      then have xc: "edge_le (d ! node) (d ! c)"
        using can by (simp add: cmp_neg edge_before_le)
      have "extract_min_loop d cur node = Some d"
        using True x0 nl lt by (subst extract_min_loop.simps) (simp add: c_def Let_def)
      moreover have "heap_ok d cur"
        unfolding heap_ok_def
      proof (intro allI impI)
        fix k assume k: "2 \<le> k \<and> k < cur"
        show "edge_le (d ! (k div 2)) (d ! k)"
        proof (cases "k div 2 = node")
          case True
          then have "k = ?l \<or> k = ?r" by auto
          with sib [of k] k have "edge_le (d ! c) (d ! k)" by simp
          with xc True show ?thesis by (auto intro: edge_le_trans)
        next
          case False
          with dn k show ?thesis by (simp add: down_ok_def)
        qed
      qed
      ultimately show ?thesis using cn by simp
    next
      case ge: False
      then have cx: "edge_le (d ! c) (d ! node)"
        using can by (simp add: cmp_neg edge_le_def)
      let ?d = "swap_edges d node c"
      have dn': "down_ok ?d cur c"
        using dn x1 cc(1) cc(2) nl cx sib by (rule down_ok_swap)
      have "\<exists>d'. extract_min_loop ?d cur c = Some d' \<and> heap_ok d' cur
          \<and> length d' = length ?d \<and> canon d' \<and> items d' cur = items ?d cur
          \<and> drop cur d' = drop cur ?d"
        by (rule "1.IH" [OF x0 True nl c_def ge canon_swap [OF bnd(1,2) cn] dn'])
           (use cc nl x1 in auto)
      then obtain d' where d': "extract_min_loop ?d cur c = Some d'" "heap_ok d' cur"
        "length d' = length d" "canon d'" "items d' cur = items ?d cur"
        "drop cur d' = drop cur ?d"
        by auto
      have "extract_min_loop d cur node = Some d'"
        using True x0 nl ge d'(1) by (subst extract_min_loop.simps) (simp add: c_def Let_def)
      moreover have "items ?d cur = items d cur"
        using cc x1 nl by (intro items_swap) auto
      moreover have "drop cur ?d = drop cur d" using cc x1 by (intro drop_swap) auto
      ultimately show ?thesis using d' by simp
    qed
  qed
qed

subsection \<open>The heap operations\<close>

definition heap_inv :: "Heap \<Rightarrow> bool" where
  "heap_inv h \<longleftrightarrow>
     length (data h) = nat (sizeMax h) \<and> 1 \<le> curEnd h
     \<and> (1 < curEnd h \<longrightarrow> curEnd h \<le> length (data h))
     \<and> canon (data h) \<and> heap_ok (data h) (curEnd h)"

lemma items_snoc:
  assumes "1 \<le> n" "n < length d"
  shows "items (d[n := e]) (Suc n) = add_mset e (items d n)"
proof -
  have "take (Suc n) (d[n := e]) = take n d @ [e]"
    using assms by (simp add: take_Suc_conv_app_nth)
  moreover have "drop 1 (take n d @ [e]) = drop 1 (take n d) @ [e]"
    using assms by simp
  ultimately show ?thesis by (simp add: items_def)
qed

lemma add_edge_correct:
  assumes inv: "heap_inv h" and e: "nonneg_edge e" and room: "curEnd h < length (data h)"
  shows "\<exists>h'. add_edge h e = Some h' \<and> heap_inv h' \<and> curEnd h' = curEnd h + 1
           \<and> sizeMax h' = sizeMax h
           \<and> items (data h') (curEnd h') = add_mset e (items (data h) (curEnd h))"
proof -
  let ?n = "curEnd h" and ?d = "data h"
  let ?dn = "?d[?n := e]"
  from inv have len: "length ?d = nat (sizeMax h)" and n1: "1 \<le> ?n" and cn: "canon ?d"
    and ok: "heap_ok ?d ?n"
    by (simp_all add: heap_inv_def)
  have cn0: "canon ?dn"
    using cn e set_update_subset_insert [of ?d ?n e] by (auto simp: canon_def)
  have up: "up_ok ?dn (Suc ?n) ?n"
    unfolding up_ok_def
  proof (intro conjI allI impI)
    fix k assume k: "2 \<le> k \<and> k < Suc ?n \<and> k \<noteq> ?n"
    then have "k < ?n" "k div 2 \<noteq> ?n" by auto
    with ok k show "edge_le (?dn ! (k div 2)) (?dn ! k)" by (simp add: heap_ok_def)
  next
    fix k assume k: "2 \<le> k \<and> k < Suc ?n \<and> k div 2 = ?n \<and> 2 \<le> ?n"
    then have False by auto
    then show "edge_le (?dn ! (?n div 2)) (?dn ! k)" ..
  qed
  from add_edge_loop_correct [OF cn0 up, of] room len
  obtain d' where d': "add_edge_loop ?dn ?n = Some d'" "heap_ok d' (Suc ?n)"
    "length d' = length ?d" "canon d'" "items d' (Suc ?n) = items ?dn (Suc ?n)"
    using n1 by auto
  have "add_edge h e = Some (h\<lparr>curEnd := ?n + 1, data := d'\<rparr>)"
    using room len d'(1) by (simp add: add_edge_def)
  moreover have "heap_inv (h\<lparr>curEnd := ?n + 1, data := d'\<rparr>)"
    using d' len room by (simp add: heap_inv_def)
  moreover have "items ?dn (Suc ?n) = add_mset e (items ?d ?n)"
    using n1 room len by (intro items_snoc) simp_all
  ultimately show ?thesis using d'(5) by simp
qed

lemma add_edge_room:
  "add_edge h e = Some h' \<Longrightarrow> curEnd h < length (data h)"
  by (simp add: add_edge_def split: if_splits)

lemma heap_ok_min: "heap_ok d n \<Longrightarrow> 1 \<le> k \<Longrightarrow> k < n \<Longrightarrow> edge_le (d ! 1) (d ! k)"
proof (induction k rule: less_induct)
  case (less k)
  show ?case
  proof (cases "k = 1")
    case True
    then show ?thesis by (simp add: edge_le_refl)
  next
    case False
    with less.prems have k2: "2 \<le> k" by simp
    then have "k div 2 < k" "1 \<le> k div 2" "k div 2 < n" using less.prems by auto
    from less.IH [OF this(1) less.prems(1) this(2,3)]
    have "edge_le (d ! 1) (d ! (k div 2))" .
    moreover have "edge_le (d ! (k div 2)) (d ! k)"
      using less.prems k2 by (simp add: heap_ok_def)
    ultimately show ?thesis by (rule edge_le_trans)
  qed
qed

lemma items_last:
  assumes "2 \<le> n" "n \<le> length d"
  shows "items d n = add_mset (d ! (n - 1)) (items d (n - 1))"
proof -
  have "take n d = take (n - 1) d @ [d ! (n - 1)]"
    using assms take_Suc_conv_app_nth [of "n - 1" d] by simp
  moreover have "drop 1 (take (n - 1) d @ [d ! (n - 1)]) = drop 1 (take (n - 1) d) @ [d ! (n - 1)]"
    using assms by simp
  ultimately show ?thesis by (simp add: items_def)
qed

lemma extract_min_correct:
  assumes inv: "heap_inv h" and ne: "1 < curEnd h"
  shows "\<exists>h'. extract_min h = Some (data h ! 1, h') \<and> heap_inv h'
           \<and> curEnd h' = curEnd h - 1 \<and> sizeMax h' = sizeMax h
           \<and> items (data h) (curEnd h) = add_mset (data h ! 1) (items (data h') (curEnd h'))
           \<and> (\<forall>k. 1 \<le> k \<and> k < curEnd h \<longrightarrow> edge_le (data h ! 1) (data h ! k))"
proof -
  let ?n = "curEnd h" and ?d = "data h"
  let ?ds = "swap_edges ?d 1 (?n - 1)"
  from inv ne have len: "length ?d = nat (sizeMax h)" and nle: "?n \<le> length ?d"
    and cn: "canon ?d" and ok: "heap_ok ?d ?n"
    by (simp_all add: heap_inv_def)
  have b: "1 < length ?d" "?n - 1 < length ?d" using ne nle len by simp_all
  have nth: "?ds ! k = (if k = ?n - 1 then ?d ! 1 else if k = 1 then ?d ! (?n - 1) else ?d ! k)"
    for k
    using nth_swap [OF b, of k] by simp
  have dn: "down_ok ?ds (?n - 1) 1"
    unfolding down_ok_def
  proof (intro conjI allI impI)
    fix k assume k: "2 \<le> k \<and> k < ?n - 1 \<and> k div 2 \<noteq> 1"
    then have "k \<noteq> ?n - 1" "k \<noteq> 1" "k div 2 \<noteq> ?n - 1" "k < ?n" by auto
    with ok k show "edge_le (?ds ! (k div 2)) (?ds ! k)"
      unfolding nth by (simp add: heap_ok_def)
  next
    fix k assume "2 \<le> k \<and> k < ?n - 1 \<and> k div 2 = 1 \<and> 2 \<le> (1::nat)"
    then show "edge_le (?ds ! (1 div 2)) (?ds ! k)" by simp
  qed
  have cn1: "canon ?ds" using b cn by (rule canon_swap)
  from extract_min_loop_correct [OF cn1 dn] b
  obtain d' where d': "extract_min_loop ?ds (?n - 1) 1 = Some d'" "heap_ok d' (?n - 1)"
    "length d' = length ?d" "canon d'" "items d' (?n - 1) = items ?ds (?n - 1)"
    by auto
  have "extract_min h = Some (?d ! 1, h\<lparr>curEnd := ?n - 1, data := d'\<rparr>)"
    using b ne d'(1) by (simp add: extract_min_def)
  moreover have "heap_inv (h\<lparr>curEnd := ?n - 1, data := d'\<rparr>)"
    using d' len nle ne by (auto simp: heap_inv_def)
  moreover have "items ?d ?n = add_mset (?d ! 1) (items ?ds (?n - 1))"
  proof -
    have "items ?d ?n = items ?ds ?n"
      using ne nle len by (intro items_swap [symmetric]) simp_all
    also have "\<dots> = add_mset (?ds ! (?n - 1)) (items ?ds (?n - 1))"
      using ne nle len by (intro items_last) simp_all
    finally show ?thesis unfolding nth by simp
  qed
  moreover have "\<forall>k. 1 \<le> k \<and> k < ?n \<longrightarrow> edge_le (?d ! 1) (?d ! k)"
    using heap_ok_min [OF ok] by blast
  ultimately show ?thesis using d'(5) by simp
qed


section \<open>Parallel Kruskal, phase 0: the edges of the diagonal block\<close>

lemma block_row_edges_end: "u < v \<Longrightarrow> block_row_edges G N u v = []"
  by (simp add: block_row_edges_def del: upt_Suc)

lemma block_row_edges_step:
  "v \<le> u \<Longrightarrow> block_row_edges G N u v =
     (if G ! (u * N + v) \<noteq> 0
      then \<lparr>ei = int v, ej = int u, ew = G ! (u * N + v)\<rparr> # block_row_edges G N u (Suc v)
      else block_row_edges G N u (Suc v))"
  by (simp add: block_row_edges_def upt_conv_Cons del: upt_Suc)

lemma length_block_row_edges: "length (block_row_edges G N u v) \<le> Suc u - v"
  unfolding block_row_edges_def
  by (rule order_trans [OF _ eq_refl [OF length_upt]], simp only: length_map, rule length_filter_le)

lemma add_local_edges_row_correct:
  assumes "0 \<le> r" and "0 \<le> nbRows" and "0 \<le> N" and "0 \<le> i" and "0 \<le> j"
    and "j \<le> r * nbRows + i + 1"
    and "\<forall>v \<le> nat (r * nbRows + i). nat i * nat N + v < length adj
           \<and> adj ! (nat i * nat N + v) = G ! (nat (r * nbRows + i) * nat N + v)"
    and "numEdge = int k"
    and "k + length (block_row_edges G (nat N) (nat (r * nbRows + i)) (nat j)) \<le> length edges"
    and "int (length adj) \<le> 2 ^ 31" and "is_int32 (r * nbRows + i)"
  shows "add_local_edges_row r adj nbRows N i j edges numEdge =
     Some (take k edges @ block_row_edges G (nat N) (nat (r * nbRows + i)) (nat j)
             @ drop (k + length (block_row_edges G (nat N) (nat (r * nbRows + i)) (nat j))) edges,
           int (k + length (block_row_edges G (nat N) (nat (r * nbRows + i)) (nat j))))"
  using assms
proof (induction "nat (r * nbRows + i + 1 - j)" arbitrary: j edges k numEdge)
  case 0
  have ri: "int32 (r * nbRows + i) = r * nbRows + i" using "0.prems"(11) by (rule int32_id)
  from 0 have "j = r * nbRows + i + 1" by simp
  then have "nat (r * nbRows + i) < nat j" "\<not> j \<le> r * nbRows + i"
    using "0.prems"(1,2,4) by simp_all
  then show ?case
    using "0.prems" by (subst add_local_edges_row.simps) (simp add: block_row_edges_end ri)
next
  case (Suc d)
  let ?u = "nat (r * nbRows + i)" and ?n = "nat N" and ?j = "nat j"
  have u0: "0 \<le> r * nbRows + i" using Suc.prems(1,2,4) by simp
  have le: "j \<le> r * nbRows + i" using Suc.hyps(2) by linarith
  then have ju: "?j \<le> ?u" by simp
  have idx: "nat (i * N + j) = nat i * ?n + ?j"
    using Suc.prems(3,4,5) by (simp add: nat_add_distrib nat_mult_distrib)
  have nonneg: "0 \<le> i * N + j" using Suc.prems(3,4,5) by simp
  from Suc.prems(7) ju have rd: "nat i * ?n + ?j < length adj"
    "adj ! (nat i * ?n + ?j) = G ! (?u * ?n + ?j)"
    by simp_all
  have ri: "int32 (r * nbRows + i) = r * nbRows + i" using Suc.prems(11) by (rule int32_id)
  have "i * N + j < int (length adj)" using rd(1) idx nonneg by linarith
  then have ix: "int32 (i * N + j) = i * N + j"
    using nonneg Suc.prems(10) by (intro int32_id) (simp add: is_int32_def)
  have d: "d = nat (r * nbRows + i + 1 - (j + 1))" using Suc.hyps(2) by linarith
  have sj: "nat (j + 1) = Suc ?j" using Suc.prems(5) by simp
  have j1: "0 \<le> j + 1" "j + 1 \<le> r * nbRows + i + 1" using Suc.prems(5) le by simp_all
  show ?case
  proof (cases "G ! (?u * ?n + ?j) = 0")
    case True
    have re: "block_row_edges G ?n ?u ?j = block_row_edges G ?n ?u (Suc ?j)"
      using True ju by (simp add: block_row_edges_step)
    have "add_local_edges_row r adj nbRows N i j edges numEdge
        = add_local_edges_row r adj nbRows N i (j + 1) edges numEdge"
      using le rd nonneg True idx by (subst add_local_edges_row.simps) (simp add: ri ix)
    also have "\<dots> = Some (take k edges @ block_row_edges G ?n ?u (nat (j + 1))
             @ drop (k + length (block_row_edges G ?n ?u (nat (j + 1)))) edges,
           int (k + length (block_row_edges G ?n ?u (nat (j + 1)))))"
      by (rule Suc.hyps(1) [OF d Suc.prems(1,2,3,4) j1 Suc.prems(7,8)])
         (use Suc.prems(9,10,11) re sj in simp_all)
    finally show ?thesis using re sj by simp
  next
    case False
    let ?e = "init_edge (r * nbRows + i) j (adj ! nat (i * N + j))"
    let ?rest = "block_row_edges G ?n ?u (Suc ?j)"
    have e: "?e = \<lparr>ei = int ?j, ej = int ?u, ew = G ! (?u * ?n + ?j)\<rparr>"
      using le u0 Suc.prems(5) rd idx by (simp add: init_edge_def)
    have re: "block_row_edges G ?n ?u ?j = ?e # ?rest"
      using False ju e by (simp add: block_row_edges_step)
    have kb: "k < length edges" using Suc.prems(9) re by simp
    have "add_local_edges_row r adj nbRows N i j edges numEdge
        = add_local_edges_row r adj nbRows N i (j + 1) (edges[k := ?e]) (numEdge + 1)"
      using le rd nonneg False idx kb Suc.prems(8)
      by (subst add_local_edges_row.simps) (simp add: ri ix)
    also have "\<dots> = Some (take (Suc k) (edges[k := ?e]) @ block_row_edges G ?n ?u (nat (j + 1))
             @ drop (Suc k + length (block_row_edges G ?n ?u (nat (j + 1)))) (edges[k := ?e]),
           int (Suc k + length (block_row_edges G ?n ?u (nat (j + 1)))))"
      by (rule Suc.hyps(1) [OF d Suc.prems(1,2,3,4) j1 Suc.prems(7)])
         (use Suc.prems(8,9,10,11) re sj in simp_all)
    finally show ?thesis
      using re sj buffer_write [OF kb, of ?e "length ?rest"] by simp
  qed
qed

definition blocks_from :: "int list \<Rightarrow> nat \<Rightarrow> nat \<Rightarrow> nat \<Rightarrow> nat \<Rightarrow> Edge list" where
  "blocks_from G N nbRows r i0 =
     concat (map (\<lambda>u. block_row_edges G N u (r * nbRows))
                 [r * nbRows + i0..<min ((r + 1) * nbRows) N])"

lemma block_edges_blocks_from: "block_edges G N nbRows r = blocks_from G N nbRows r 0"
  by (simp add: block_edges_def blocks_from_def)

lemma blocks_from_end:
  "nbRows \<le> i0 \<or> N \<le> r * nbRows + i0 \<Longrightarrow> blocks_from G N nbRows r i0 = []"
  by (auto simp: blocks_from_def)

lemma blocks_from_step:
  "i0 < nbRows \<Longrightarrow> r * nbRows + i0 < N \<Longrightarrow>
     blocks_from G N nbRows r i0 =
       block_row_edges G N (r * nbRows + i0) (r * nbRows) @ blocks_from G N nbRows r (Suc i0)"
  by (simp add: blocks_from_def upt_conv_Cons)

lemma add_local_edges_loop_correct:
  assumes "0 \<le> r" and "0 \<le> nbRows" and "0 \<le> N" and "0 \<le> i" and "i \<le> nbRows"
    and "\<forall>i' < nat nbRows. nat r * nat nbRows + i' < nat N \<longrightarrow>
           (\<forall>v \<le> nat r * nat nbRows + i'. i' * nat N + v < length adj
              \<and> adj ! (i' * nat N + v) = G ! ((nat r * nat nbRows + i') * nat N + v))"
    and "numEdge = int k"
    and "k + length (blocks_from G (nat N) (nat nbRows) (nat r) (nat i)) \<le> length edges"
    and "int (length adj) \<le> 2 ^ 31" and "(r + 1) * nbRows \<le> 2 ^ 31"
  shows "add_local_edges_loop r adj nbRows N i edges numEdge =
     Some (take k edges @ blocks_from G (nat N) (nat nbRows) (nat r) (nat i)
             @ drop (k + length (blocks_from G (nat N) (nat nbRows) (nat r) (nat i))) edges,
           int (k + length (blocks_from G (nat N) (nat nbRows) (nat r) (nat i))))"
  using assms
proof (induction "nat (nbRows - i)" arbitrary: i edges k numEdge)
  case 0
  then have "i = nbRows" by simp
  then show ?case
    using "0.prems" by (subst add_local_edges_loop.simps) (simp add: blocks_from_end)
next
  case (Suc d)
  then have lt: "i < nbRows" by linarith
  let ?n = "nat N" and ?b = "nat nbRows" and ?r = "nat r" and ?i = "nat i"
  have ur: "nat (r * nbRows + i) = ?r * ?b + ?i"
    using Suc.prems(1,2,4) by (simp add: nat_add_distrib nat_mult_distrib)
  have ib: "?i < ?b" using lt Suc.prems(4) by simp
  have "r * nbRows + i < (r + 1) * nbRows" using lt by (simp add: algebra_simps)
  moreover have "0 \<le> r * nbRows" using Suc.prems(1,2) by simp
  ultimately have in32: "is_int32 (r * nbRows + i)" "is_int32 (r * nbRows)"
    using Suc.prems(4,10) by (simp_all add: is_int32_def)
  have ri: "int32 (r * nbRows + i) = r * nbRows + i" "int32 (r * nbRows) = r * nbRows"
    using in32 by (simp_all add: int32_id)
  show ?case
  proof (cases "r * nbRows + i \<ge> N")
    case True
    then have "nat N \<le> nat (r * nbRows + i)" by simp
    then have "?n \<le> ?r * ?b + ?i" unfolding ur .
    then have "blocks_from G ?n ?b ?r ?i = []" by (simp add: blocks_from_end)
    moreover have "add_local_edges_loop r adj nbRows N i edges numEdge = Some (edges, numEdge)"
      using lt True by (subst add_local_edges_loop.simps) (simp add: ri)
    ultimately show ?thesis using Suc.prems(7) by simp
  next
    case False
    moreover have "0 \<le> r * nbRows + i" using Suc.prems(1,2,4) by simp
    ultimately have "nat (r * nbRows + i) < nat N" by linarith
    then have un: "?r * ?b + ?i < ?n" unfolding ur .
    let ?R = "block_row_edges G ?n (?r * ?b + ?i) (?r * ?b)"
    let ?rest = "blocks_from G ?n ?b ?r (Suc ?i)"
    have bf: "blocks_from G ?n ?b ?r ?i = ?R @ ?rest"
      using ib un by (rule blocks_from_step)
    have kR: "k + length ?R \<le> length edges" using Suc.prems(8) bf by simp
    let ?edges1 = "take k edges @ ?R @ drop (k + length ?R) edges"
    have j0: "nat (r * nbRows) = ?r * ?b"
      using Suc.prems(1,2) by (simp add: nat_mult_distrib)
    have rowcorr: "\<forall>v \<le> nat (r * nbRows + i). nat i * ?n + v < length adj
           \<and> adj ! (nat i * ?n + v) = G ! (nat (r * nbRows + i) * ?n + v)"
      using Suc.prems(6) ib un unfolding ur by simp
    have row: "add_local_edges_row r adj nbRows N i (r * nbRows) edges numEdge
        = Some (?edges1, int (k + length ?R))"
      using add_local_edges_row_correct [where j = "r * nbRows" and edges = edges,
          OF Suc.prems(1,2,3,4) _ _ rowcorr Suc.prems(7) _ Suc.prems(9) in32(1)]
        kR Suc.prems(1,2,4)
      unfolding ur j0 by simp
    have d: "d = nat (nbRows - (i + 1))" using Suc.hyps(2) by linarith
    have si: "nat (i + 1) = Suc ?i" using Suc.prems(4) by simp
    have len1: "length ?edges1 = length edges" using kR by simp
    have "add_local_edges_loop r adj nbRows N i edges numEdge
        = add_local_edges_loop r adj nbRows N (i + 1) ?edges1 (int (k + length ?R))"
      using lt False row by (subst add_local_edges_loop.simps) (simp add: ri)
    also have "\<dots> = Some (take (k + length ?R) ?edges1
             @ blocks_from G ?n ?b ?r (nat (i + 1))
             @ drop (k + length ?R + length (blocks_from G ?n ?b ?r (nat (i + 1)))) ?edges1,
           int (k + length ?R + length (blocks_from G ?n ?b ?r (nat (i + 1)))))"
      by (rule Suc.hyps(1) [OF d Suc.prems(1,2,3) _ _ Suc.prems(6) refl])
         (use Suc.prems(4,8,9,10) lt bf si len1 in simp_all)
    finally have "add_local_edges_loop r adj nbRows N i edges numEdge
        = Some (take (k + length ?R) ?edges1 @ ?rest
               @ drop (k + length ?R + length ?rest) ?edges1,
             int (k + length ?R + length ?rest))"
      unfolding si .
    then show ?thesis
      unfolding buffer_block(1) [OF kR refl] buffer_block(2) [OF kR refl]
      by (simp only: bf append_assoc length_append add.assoc)
  qed
qed

lemma length_concat_le:
  "(\<And>x. x \<in> set xs \<Longrightarrow> length (f x) \<le> b) \<Longrightarrow> length (concat (map f xs)) \<le> length xs * b"
proof (induction xs)
  case Nil
  show ?case by simp
next
  case (Cons x xs)
  have "length (f x) \<le> b" by (rule Cons.prems) simp
  moreover have "length (concat (map f xs)) \<le> length xs * b"
    by (rule Cons.IH) (simp add: Cons.prems)
  ultimately show ?case by simp
qed

lemma length_block_edges: "length (block_edges G N nbRows r) \<le> nbRows * nbRows"
proof -
  let ?us = "[r * nbRows..<min ((r + 1) * nbRows) N]"
  have "length (block_edges G N nbRows r) \<le> length ?us * nbRows"
    unfolding block_edges_def
  proof (rule length_concat_le)
    fix u assume "u \<in> set ?us"
    then have "Suc u - r * nbRows \<le> nbRows" by auto
    with length_block_row_edges [of G N u "r * nbRows"]
    show "length (block_row_edges G N u (r * nbRows)) \<le> nbRows" by linarith
  qed
  moreover have "length ?us \<le> nbRows" by auto
  ultimately show ?thesis
    by (meson mult_le_mono1 order_trans)
qed

lemma row_block_nth:
  assumes "length G = N * N" and "i < nbRows" and "r * nbRows + i < N" and "v < N"
  shows "i * N + v < length (row_block G N nbRows r)
       \<and> row_block G N nbRows r ! (i * N + v) = G ! ((r * nbRows + i) * N + v)"
proof -
  have "i * N + v < i * N + N" using assms(4) by simp
  also have "\<dots> = Suc i * N" by simp
  also have "\<dots> \<le> nbRows * N" using assms(2) by (intro mult_le_mono1) simp
  finally have a: "i * N + v < nbRows * N" .
  have "(r * nbRows + i) * N + v < (r * nbRows + i) * N + N" using assms(4) by simp
  also have "\<dots> = Suc (r * nbRows + i) * N" by simp
  also have "\<dots> \<le> N * N" using assms(3) by (intro mult_le_mono1) simp
  finally have b: "r * nbRows * N + (i * N + v) < length G"
    using assms(1) by (simp add: algebra_simps)
  show ?thesis
    using a b by (simp add: row_block_def algebra_simps)
qed

lemma set_block_edges:
  "set (block_edges G N nbRows r) =
     {\<lparr>ei = int v, ej = int u, ew = G ! (u * N + v)\<rparr> | u v.
        r * nbRows \<le> v \<and> v \<le> u \<and> u < min ((r + 1) * nbRows) N \<and> G ! (u * N + v) \<noteq> 0}"
proof (intro set_eqI iffI)
  fix e assume "e \<in> set (block_edges G N nbRows r)"
  then show "e \<in> {\<lparr>ei = int v, ej = int u, ew = G ! (u * N + v)\<rparr> | u v.
        r * nbRows \<le> v \<and> v \<le> u \<and> u < min ((r + 1) * nbRows) N \<and> G ! (u * N + v) \<noteq> 0}"
    by (auto simp add: block_edges_def block_row_edges_def simp del: upt_Suc)
next
  fix e assume "e \<in> {\<lparr>ei = int v, ej = int u, ew = G ! (u * N + v)\<rparr> | u v.
        r * nbRows \<le> v \<and> v \<le> u \<and> u < min ((r + 1) * nbRows) N \<and> G ! (u * N + v) \<noteq> 0}"
  then obtain u v where uv: "e = \<lparr>ei = int v, ej = int u, ew = G ! (u * N + v)\<rparr>"
    "r * nbRows \<le> v" "v \<le> u" "u < min ((r + 1) * nbRows) N" "G ! (u * N + v) \<noteq> 0"
    by blast
  then have "e \<in> set (block_row_edges G N u (r * nbRows))"
    by (simp add: block_row_edges_def del: upt_Suc)
  moreover have "u \<in> set [r * nbRows..<min ((r + 1) * nbRows) N]"
    using uv by simp
  ultimately show "e \<in> set (block_edges G N nbRows r)"
    unfolding block_edges_def by (simp only: set_concat set_map) blast
qed

lemma add_local_edges_row_block:
  assumes "0 \<le> procRank" and "0 \<le> nbRows" and "0 \<le> N" and "length G = nat N * nat N"
    and "nbRows * N \<le> 2 ^ 31" and "(procRank + 1) * nbRows \<le> 2 ^ 31"
  shows "add_local_edges procRank (row_block G (nat N) (nat nbRows) (nat procRank)) nbRows N
           (calloc_edges (nbRows * nbRows))
       = Some (block_edges G (nat N) (nat nbRows) (nat procRank)
                 @ replicate (nat (nbRows * nbRows)
                      - length (block_edges G (nat N) (nat nbRows) (nat procRank))) zero_edge,
               int (length (block_edges G (nat N) (nat nbRows) (nat procRank))))"
proof -
  let ?n = "nat N" and ?b = "nat nbRows" and ?r = "nat procRank"
  let ?adj = "row_block G ?n ?b ?r"
  let ?B = "block_edges G ?n ?b ?r"
  have rows: "\<forall>i' < ?b. ?r * ?b + i' < ?n \<longrightarrow>
           (\<forall>v \<le> ?r * ?b + i'. i' * ?n + v < length ?adj
              \<and> ?adj ! (i' * ?n + v) = G ! ((?r * ?b + i') * ?n + v))"
  proof (intro allI impI)
    fix i' v assume "i' < ?b" "?r * ?b + i' < ?n" "v \<le> ?r * ?b + i'"
    then show "i' * ?n + v < length ?adj \<and> ?adj ! (i' * ?n + v) = G ! ((?r * ?b + i') * ?n + v)"
      by (intro row_block_nth [OF assms(4)]) simp_all
  qed
  have len: "length ?B \<le> ?b * ?b" by (rule length_block_edges)
  have cap: "length (calloc_edges (nbRows * nbRows)) = ?b * ?b"
    using assms(2) by (simp add: calloc_edges_def nat_mult_distrib)
  have "length ?adj \<le> ?b * ?n" by (simp add: row_block_def)
  also have "int (?b * ?n) = nbRows * N" using assms(2,3) by simp
  finally have small: "int (length ?adj) \<le> 2 ^ 31" using assms(5) by simp
  have "add_local_edges_loop procRank ?adj nbRows N 0 (calloc_edges (nbRows * nbRows)) 0
      = Some (take 0 (calloc_edges (nbRows * nbRows)) @ blocks_from G ?n ?b ?r (nat 0)
             @ drop (0 + length (blocks_from G ?n ?b ?r (nat 0))) (calloc_edges (nbRows * nbRows)),
           int (0 + length (blocks_from G ?n ?b ?r (nat 0))))"
    by (rule add_local_edges_loop_correct [OF assms(1,2,3) _ assms(2) rows _ _ small assms(6)])
       (use len cap in \<open>simp_all add: block_edges_blocks_from\<close>)
  then show ?thesis
    by (simp add: add_local_edges_def block_edges_blocks_from calloc_edges_def)
qed

text \<open>
  Claim C4, as the code has it. \<open>add_local_edges\<close> takes the entry of row
  \<open>u = r * nbRows + i\<close> and column \<open>v\<close> from \<open>adj[i*N + v]\<close>: it addresses its \<open>adj\<close> argument
  by the local row \<open>i\<close>. So when the \<open>adj\<close> of rank \<open>r\<close> holds the row block of the rank, the
  rows \<open>[r * nbRows, min ((r + 1) * nbRows) N)\<close> of the matrix \<open>G\<close>, the edges that it writes
  for \<open>create_forest\<close> are exactly the non-zero entries \<open>G[u][v]\<close> with \<open>u\<close> and \<open>v\<close> in the row
  block and \<open>v \<le> u\<close>, each as the edge \<open>(v, u, G[u][v])\<close>: its global endpoints and its
  weight. The row block has at most \<open>2^31\<close> entries and the row numbers are ints.
\<close>

theorem add_local_edges_enumerates_block:
  assumes "0 \<le> procRank" and "0 \<le> nbRows" and "0 \<le> N" and "length G = nat N * nat N"
    and "nbRows * N \<le> 2 ^ 31" and "(procRank + 1) * nbRows \<le> 2 ^ 31"
  shows "add_local_edges procRank (row_block G (nat N) (nat nbRows) (nat procRank)) nbRows N
           (calloc_edges (nbRows * nbRows))
       = Some (block_edges G (nat N) (nat nbRows) (nat procRank)
                 @ replicate (nat (nbRows * nbRows)
                      - length (block_edges G (nat N) (nat nbRows) (nat procRank))) zero_edge,
               int (length (block_edges G (nat N) (nat nbRows) (nat procRank))))
     \<and> set (block_edges G (nat N) (nat nbRows) (nat procRank)) =
         {\<lparr>ei = int v, ej = int u, ew = G ! (u * nat N + v)\<rparr> | u v.
            nat procRank * nat nbRows \<le> v \<and> v \<le> u
            \<and> u < min ((nat procRank + 1) * nat nbRows) (nat N) \<and> G ! (u * nat N + v) \<noteq> 0}"
  using add_local_edges_row_block [OF assms]
    set_block_edges [of G "nat N" "nat nbRows" "nat procRank"]
  by (rule conjI)

theorem add_local_edges_enumerates_block_witness:
  "(0::int) \<le> 1 \<and> (0::int) \<le> 2 \<and> (0::int) \<le> 4
   \<and> length [0, 1, 4, 0, 1, 0, 2, 5, 4, 2, 0, 3, 0, 5, 3, 0 :: int] = nat 4 * nat 4
   \<and> (2::int) * 4 \<le> 2 ^ 31 \<and> ((1::int) + 1) * 2 \<le> 2 ^ 31
   \<and> row_block [0, 1, 4, 0, 1, 0, 2, 5, 4, 2, 0, 3, 0, 5, 3, 0] (nat 4) (nat 2) (nat 1)
       = [4, 2, 0, 3, 0, 5, 3, 0]
   \<and> add_local_edges 1 [4, 2, 0, 3, 0, 5, 3, 0] 2 4 (calloc_edges (2 * 2))
       = Some ([\<lparr>ei = 2, ej = 3, ew = 3\<rparr>, zero_edge, zero_edge, zero_edge], 1)
   \<and> block_edges [0, 1, 4, 0, 1, 0, 2, 5, 4, 2, 0, 3, 0, 5, 3, 0] (nat 4) (nat 2) (nat 1)
       = [\<lparr>ei = 2, ej = 3, ew = 3\<rparr>]"
proof -
  let ?G = "[0, 1, 4, 0, 1, 0, 2, 5, 4, 2, 0, 3, 0, 5, 3, 0 :: int]"
  have h: "(0::int) \<le> 1" "(0::int) \<le> 2" "(0::int) \<le> 4" "length ?G = nat 4 * nat 4"
    "(2::int) * 4 \<le> 2 ^ 31" "((1::int) + 1) * 2 \<le> 2 ^ 31"
    by simp_all
  have rb: "row_block ?G (nat 4) (nat 2) (nat 1) = [4, 2, 0, 3, 0, 5, 3, 0]"
    by (simp add: row_block_def)
  have be: "block_edges ?G (nat 4) (nat 2) (nat 1) = [\<lparr>ei = 2, ej = 3, ew = 3\<rparr>]"
    by code_simp
  from add_local_edges_enumerates_block [OF h]
  have "add_local_edges 1 (row_block ?G (nat 4) (nat 2) (nat 1)) 2 4 (calloc_edges (2 * 2))
      = Some (block_edges ?G (nat 4) (nat 2) (nat 1)
                 @ replicate (nat (2 * 2) - length (block_edges ?G (nat 4) (nat 2) (nat 1))) zero_edge,
               int (length (block_edges ?G (nat 4) (nat 2) (nat 1))))"
    by blast
  then have "add_local_edges 1 [4, 2, 0, 3, 0, 5, 3, 0] 2 4 (calloc_edges (2 * 2))
       = Some ([\<lparr>ei = 2, ej = 3, ew = 3\<rparr>, zero_edge, zero_edge, zero_edge], 1)"
    unfolding rb be by (simp add: numeral_eq_Suc)
  with h rb be show ?thesis by blast
qed

text \<open>
  When the \<open>adj\<close> of a rank \<open>r \<ge> 1\<close> is the whole matrix, as the specification has it, the
  local row \<open>i\<close> is a row of rank 0: the edges that rank 1 of 2 writes for the graph with the
  edges \<open>(0,1,1)\<close>, \<open>(0,2,4)\<close>, \<open>(1,2,2)\<close>, \<open>(1,3,5)\<close>, \<open>(2,3,3)\<close> have the weights of the rows
  0 and 1, and the one entry of its block, \<open>(2, 3, 3)\<close>, is not among them.
\<close>

theorem add_local_edges_whole_matrix_counterexample:
  "add_local_edges 1 [0, 1, 4, 0, 1, 0, 2, 5, 4, 2, 0, 3, 0, 5, 3, 0] 2 4 (calloc_edges (2 * 2))
     = Some ([\<lparr>ei = 2, ej = 2, ew = 4\<rparr>, \<lparr>ei = 2, ej = 3, ew = 2\<rparr>, \<lparr>ei = 3, ej = 3, ew = 5\<rparr>,
              zero_edge], 3)
   \<and> block_edges [0, 1, 4, 0, 1, 0, 2, 5, 4, 2, 0, 3, 0, 5, 3, 0] 4 2 1
       = [\<lparr>ei = 2, ej = 3, ew = 3\<rparr>]
   \<and> \<lparr>ei = 2, ej = 3, ew = 3\<rparr>
       \<notin> set [\<lparr>ei = 2, ej = 2, ew = 4\<rparr>, \<lparr>ei = 2, ej = 3, ew = 2\<rparr>, \<lparr>ei = 3, ej = 3, ew = 5\<rparr>,
                zero_edge]"
proof -
  have "add_local_edges 1 [0, 1, 4, 0, 1, 0, 2, 5, 4, 2, 0, 3, 0, 5, 3, 0] 2 4
          (calloc_edges (2 * 2))
      = Some ([\<lparr>ei = 2, ej = 2, ew = 4\<rparr>, \<lparr>ei = 2, ej = 3, ew = 2\<rparr>, \<lparr>ei = 3, ej = 3, ew = 5\<rparr>,
               zero_edge], 3)"
    by code_simp
  moreover have "block_edges [0, 1, 4, 0, 1, 0, 2, 5, 4, 2, 0, 3, 0, 5, 3, 0] 4 2 1
      = [\<lparr>ei = 2, ej = 3, ew = 3\<rparr>]"
    by code_simp
  ultimately show ?thesis by (simp add: zero_edge_def)
qed

section \<open>Graphs\<close>

text \<open>
  \<open>graph_ok N adj\<close>: \<open>adj\<close> is the row-major \<open>N \<times> N\<close> matrix of an undirected graph, symmetric
  with non-negative int weights, and it has at most \<open>2^31\<close> entries (\<open>N \<le> 46340\<close>), so that
  no 32-bit index \<open>i*N+j\<close> wraps. \<open>gedge adj n u v\<close> is the edge of the entry \<open>(u, v)\<close>, and
  \<open>connected\<close> says that every vertex is reached from vertex 0 along non-zero entries.
  \<open>visited\<close> counts the marked vertices.
\<close>

definition gedge :: "int list \<Rightarrow> nat \<Rightarrow> nat \<Rightarrow> nat \<Rightarrow> Edge" where
  "gedge adj n u v = init_edge (int u) (int v) (adj ! (u * n + v))"

definition graph_ok :: "int \<Rightarrow> int list \<Rightarrow> bool" where
  "graph_ok N adj \<longleftrightarrow>
     1 \<le> N \<and> N * N \<le> 2 ^ 31 \<and> length adj = nat N * nat N
     \<and> (\<forall>w \<in> set adj. 0 \<le> w \<and> w < 2 ^ 31)
     \<and> (\<forall>u < nat N. \<forall>v < nat N. adj ! (u * nat N + v) = adj ! (v * nat N + u))"

definition adjacent :: "int list \<Rightarrow> nat \<Rightarrow> (nat \<times> nat) set" where
  "adjacent adj n = {(u, v). u < n \<and> v < n \<and> adj ! (u * n + v) \<noteq> 0}"

definition connected :: "int \<Rightarrow> int list \<Rightarrow> bool" where
  "connected N adj \<longleftrightarrow> (\<forall>v < nat N. (0, v) \<in> (adjacent adj (nat N))\<^sup>*)"

definition visited :: "int list \<Rightarrow> nat" where
  "visited isV = length (filter (\<lambda>x. x \<noteq> 0) isV)"

lemma graph_ok_bound: "graph_ok N adj \<Longrightarrow> N \<le> 2 ^ 31"
proof -
  assume "graph_ok N adj"
  then have N: "1 \<le> N" "N * N \<le> 2 ^ 31" by (simp_all add: graph_ok_def)
  then have "N * 1 \<le> N * N" by (intro mult_left_mono) simp_all
  with N(2) show ?thesis by linarith
qed

lemma gedge_fields:
  "ei (gedge adj n u v) = int (min u v)" "ej (gedge adj n u v) = int (max u v)"
  "ew (gedge adj n u v) = adj ! (u * n + v)"
  by (auto simp: gedge_def init_edge_def)

lemma index_lt:
  fixes u v n :: nat
  assumes "u < n" "v < n"
  shows "u * n + v < n * n"
proof -
  have "u * n + v < u * n + n" using assms(2) by simp
  also have "\<dots> = Suc u * n" by simp
  also have "\<dots> \<le> n * n" using assms(1) by (intro mult_le_mono1) simp
  finally show ?thesis .
qed

lemma gedge_nonneg:
  assumes "graph_ok N adj" "u < nat N" "v < nat N"
  shows "nonneg_edge (gedge adj (nat N) u v)"
proof -
  from assms(1) have len: "length adj = nat N * nat N"
    and w: "\<forall>w \<in> set adj. 0 \<le> w \<and> w < 2 ^ 31"
    by (simp_all add: graph_ok_def)
  have N: "N \<le> 2 ^ 31" using assms(1) by (rule graph_ok_bound)
  have "adj ! (u * nat N + v) \<in> set adj"
    using index_lt [OF assms(2,3)] len by (intro nth_mem) simp
  with w have "0 \<le> adj ! (u * nat N + v) \<and> adj ! (u * nat N + v) < 2 ^ 31" by blast
  moreover have "int (min u v) < 2 ^ 31" "int (max u v) < 2 ^ 31"
    using assms(2,3) N by linarith+
  ultimately show ?thesis
    by (simp add: nonneg_edge_def canonical_def is_int32_def gedge_fields)
qed

lemma visited_mark:
  "k < length isV \<Longrightarrow> isV ! k = 0 \<Longrightarrow> visited (isV[k := 1]) = Suc (visited isV)"
proof (induction isV arbitrary: k)
  case Nil
  then show ?case by simp
next
  case (Cons x xs)
  show ?case
  proof (cases k)
    case 0
    with Cons.prems show ?thesis by (simp add: visited_def)
  next
    case (Suc k')
    with Cons.prems Cons.IH [of k'] show ?thesis by (simp add: visited_def)
  qed
qed

lemma visited_lt:
  assumes "k < length isV" "isV ! k = 0"
  shows "visited isV < length isV"
proof -
  from assms(1) have "isV ! k \<in> set isV" by (rule nth_mem)
  moreover from assms(2) have "\<not> isV ! k \<noteq> 0" by simp
  ultimately show ?thesis unfolding visited_def by (rule length_filter_less)
qed

lemma visited_all:
  assumes "\<And>k. k < length isV \<Longrightarrow> isV ! k \<noteq> 0"
  shows "visited isV = length isV"
proof -
  have "\<forall>x \<in> set isV. x \<noteq> 0" using assms by (auto simp: in_set_conv_nth)
  then have "filter (\<lambda>x. x \<noteq> 0) isV = isV" by (simp add: filter_id_conv)
  then show ?thesis by (simp add: visited_def)
qed

lemma visited_le: "visited isV \<le> length isV"
  by (simp add: visited_def)

lemma visited_pos:
  assumes "k < length isV" "isV ! k \<noteq> 0"
  shows "0 < visited isV"
proof -
  from assms have "isV ! k \<in> set (filter (\<lambda>x. x \<noteq> 0) isV)" by simp
  then show ?thesis unfolding visited_def by (rule length_pos_if_in_set)
qed

lemma visited_replicate: "visited (replicate n 0) = 0"
  by (simp add: visited_def)

lemma sample_graph_ok: "graph_ok 4 [0, 1, 4, 0, 1, 0, 2, 5, 4, 2, 0, 3, 0, 5, 3, 0]"
proof -
  have n: "nat 4 = Suc (Suc (Suc (Suc 0)))" by simp
  show ?thesis unfolding graph_ok_def n by (simp add: All_less_Suc)
qed

lemma sample_connected: "connected 4 [0, 1, 4, 0, 1, 0, 2, 5, 4, 2, 0, 3, 0, 5, 3, 0]"
proof -
  let ?A = "adjacent [0, 1, 4, 0, 1, 0, 2, 5, 4, 2, 0, 3, 0, 5, 3, 0] (nat 4)"
  have e: "(0, 1) \<in> ?A" "(1, 2) \<in> ?A" "(2, 3) \<in> ?A" by (simp_all add: adjacent_def)
  have r0: "(0, 0) \<in> ?A\<^sup>*" by simp
  from r0 e(1) have r1: "(0, 1) \<in> ?A\<^sup>*" by (rule rtrancl_into_rtrancl)
  from r1 e(2) have r2: "(0, 2) \<in> ?A\<^sup>*" by (rule rtrancl_into_rtrancl)
  from r2 e(3) have r3: "(0, 3) \<in> ?A\<^sup>*" by (rule rtrancl_into_rtrancl)
  have n: "nat 4 = Suc (Suc (Suc (Suc 0)))" by simp
  have "\<forall>v < Suc (Suc (Suc (Suc 0))). (0, v) \<in> ?A\<^sup>*"
    using r0 r1 r2 r3 by (simp add: All_less_Suc numeral_2_eq_2 numeral_3_eq_3)
  then show ?thesis unfolding connected_def by (simp only: n)
qed

section \<open>Sequential Prim: the heap is never allocated\<close>


section \<open>Parallel Prim: a candidate in every iteration\<close>

text \<open>
  The border of a rank is right for the visited set \<open>V\<close> (\<open>border_ok\<close>) when, for each
  unvisited vertex of the rank's row block, its weight is non-zero exactly if the vertex has
  a visited neighbour. \<open>cand\<close> is the test of \<open>find_closest_border\<close> on a local row;
  a \<open>contribution\<close> to the gather is the sentinel or an \<open>offer\<close> of a vertex.
\<close>

lemma those_map:
  "(\<And>x. x \<in> set xs \<Longrightarrow> f x \<noteq> None) \<Longrightarrow> those (map f xs) = Some (map (the \<circ> f) xs)"
proof (induction xs)
  case Nil
  show ?case by simp
next
  case (Cons a xs)
  from Cons.prems [of a] obtain y where y: "f a = Some y" by auto
  have "those (map f xs) = Some (map (the \<circ> f) xs)"
    using Cons.prems by (intro Cons.IH) simp
  with y show ?case by simp
qed

lemma those_upt:
  assumes "\<forall>r < m. \<exists>y. f r = Some y"
  shows "\<exists>ys. those (map f [0..<m]) = Some ys \<and> length ys = m \<and> (\<forall>r < m. f r = Some (ys ! r))"
proof -
  have "those (map f [0..<m]) = Some (map (the \<circ> f) [0..<m])"
    using assms by (intro those_map) auto
  moreover have "f r = Some (map (the \<circ> f) [0..<m] ! r)" if "r < m" for r
    using assms that by auto
  ultimately show ?thesis by auto
qed

lemma concat_triples:
  assumes "\<And>b. b \<in> set bufs \<Longrightarrow> length b = 3"
  shows "length (concat bufs) = 3 * length bufs"
    and "r < length bufs \<Longrightarrow> i < 3 \<Longrightarrow> concat bufs ! (r * 3 + i) = bufs ! r ! i"
  using assms
proof (induction bufs arbitrary: r)
  case Nil
  { case 1 show ?case by simp }
  { case 2 then show ?case by simp }
next
  case (Cons b bufs)
  { case 1
    then show ?case using Cons.IH(1) by simp }
  { case 2
    have lb: "length b = 3" using 2(3) by simp
    show ?case
    proof (cases r)
      case 0
      with 2 lb show ?thesis by (simp add: nth_append)
    next
      case (Suc r')
      with 2 have "concat bufs ! (r' * 3 + i) = bufs ! r' ! i"
        by (intro Cons.IH(2)) simp_all
      with Suc lb show ?thesis by (simp add: nth_append)
    qed }
qed

definition border_ok ::
  "int list \<Rightarrow> nat \<Rightarrow> nat \<Rightarrow> int list \<Rightarrow> nat \<Rightarrow> BorderNode list \<Rightarrow> bool" where
  "border_ok G n b V r border \<longleftrightarrow>
     length border = b
     \<and> (\<forall>y < b. r * b + y < n \<and> V ! (r * b + y) = 0 \<longrightarrow>
          (bw (border ! y) \<noteq> 0 \<longleftrightarrow> (\<exists>u < n. V ! u \<noteq> 0 \<and> G ! ((r * b + y) * n + u) \<noteq> 0)))"

definition cand :: "nat \<Rightarrow> nat \<Rightarrow> int list \<Rightarrow> nat \<Rightarrow> BorderNode list \<Rightarrow> nat \<Rightarrow> bool" where
  "cand n b V r border y \<longleftrightarrow>
     y < b \<and> r * b + y < n \<and> V ! (r * b + y) = 0 \<and> bw (border ! y) \<noteq> 0"

lemma int_index: "int r * int b + int y = int (r * b + y)"
  by simp

lemma int_index_ge: "int n \<le> int r * int b + int y \<longleftrightarrow> n \<le> r * b + y"
  unfolding int_index by (rule of_nat_le_iff)

lemma nat_index: "nat (int y * int n + int u) = y * n + u"
proof -
  have "int y * int n + int u = int (y * n + u)" by simp
  then show ?thesis by (simp only: nat_int)
qed

subsection \<open>Where the 32-bit row numbers and indices are exact\<close>

lemma int32_row:
  assumes "y < b" and "(r + 1) * b \<le> 2 ^ 31"
  shows "int32 (int r * int b + int y) = int r * int b + int y"
    and "int32 (int y + int r * int b) = int y + int r * int b"
proof -
  have "r * b + y < (r + 1) * b" using assms(1) by simp
  then have "r * b + y < 2 ^ 31" using assms(2) by linarith
  then have "int (r * b + y) < 2 ^ 31" by (metis of_nat_less_numeral_power_cancel_iff)
  moreover have "(0::int) \<le> int (r * b + y)" by (rule of_nat_0_le_iff)
  ultimately have "is_int32 (int (r * b + y))" unfolding is_int32_def by linarith
  then have "is_int32 (int r * int b + int y)" by simp
  then show "int32 (int r * int b + int y) = int r * int b + int y" by (rule int32_id)
  then show "int32 (int y + int r * int b) = int y + int r * int b" by (simp add: add.commute)
qed

lemma int32_entry:
  assumes "y < b" and "u < n" and "b * n \<le> 2 ^ 31"
  shows "int32 (int y * int n + int u) = int y * int n + int u"
    and "int32 (int y * int n) = int y * int n"
proof -
  have "y * n + u < y * n + n" using assms(2) by simp
  also have "\<dots> = Suc y * n" by simp
  also have "\<dots> \<le> b * n" using assms(1) by (intro mult_le_mono1) simp
  finally have "y * n + u < 2 ^ 31" using assms(3) by linarith
  then have lt: "int (y * n + u) < 2 ^ 31" by (metis of_nat_less_numeral_power_cancel_iff)
  moreover have "(0::int) \<le> int (y * n + u)" by (rule of_nat_0_le_iff)
  ultimately have "is_int32 (int (y * n + u))" unfolding is_int32_def by linarith
  then have "is_int32 (int y * int n + int u)" by simp
  then show "int32 (int y * int n + int u) = int y * int n + int u" by (rule int32_id)
  have "int (y * n) \<le> int (y * n + u)" "(0::int) \<le> int (y * n)" by simp_all
  with lt have "is_int32 (int (y * n))" unfolding is_int32_def by linarith
  then have "is_int32 (int y * int n)" by simp
  then show "int32 (int y * int n) = int y * int n" by (rule int32_id)
qed

lemma create_border_loop_unfold:
  assumes "procRank = int r" and "nbRows = int b" and "N = int n" and "y = int y0"
    and "y0 < b" and "(r + 1) * b \<le> 2 ^ 31" and "b * n \<le> 2 ^ 31"
  shows "create_border_loop procRank nbRows N adj border y =
     (if y < nbRows then
        (if procRank * nbRows + y \<ge> N then Some border
         else if 0 \<le> y * N \<and> nat (y * N) < length adj \<and> 0 \<le> y \<and> nat y < length border then
           create_border_loop procRank nbRows N adj
             (border[nat y := \<lparr>bw = adj ! nat (y * N), bz = 0\<rparr>]) (y + 1)
         else None)
      else Some border)"
proof (cases "0 < n")
  case True
  note e = int32_row [OF assms(5,6)] int32_entry(2) [OF assms(5) True assms(7)]
  show ?thesis unfolding assms(1-4) by (subst create_border_loop.simps) (simp only: e)
next
  case False
  then have "n = 0" by simp
  then show ?thesis
    unfolding assms(1-4) using int32_row [OF assms(5,6)]
    by (subst create_border_loop.simps) (simp add: int32_def)
qed

lemma find_closest_border_loop_unfold:
  assumes "procRank = int r" and "nbRows = int b" and "y = int y0"
    and "y0 < b" and "(r + 1) * b \<le> 2 ^ 31"
  shows "find_closest_border_loop procRank border isVisited N nbRows y yOpt smallest =
     (if y < nbRows then
        (if procRank * nbRows + y \<ge> N then Some yOpt
         else if 0 \<le> y + procRank * nbRows \<and> nat (y + procRank * nbRows) < length isVisited then
           (if isVisited ! nat (y + procRank * nbRows) \<noteq> 0 then
              find_closest_border_loop procRank border isVisited N nbRows (y + 1) yOpt smallest
            else if 0 \<le> y \<and> nat y < length border then
              (let curEdge = init_edge (procRank * nbRows + y) (bz (border ! nat y))
                               (bw (border ! nat y))
               in if bw (border ! nat y) \<noteq> 0 then
                    (if yOpt = - 1 then
                       find_closest_border_loop procRank border isVisited N nbRows (y + 1) y
                         (Some curEdge)
                     else
                       (case smallest of
                          None \<Rightarrow> None
                        | Some s \<Rightarrow>
                            if cmp_edges s curEdge > 0 then
                              find_closest_border_loop procRank border isVisited N nbRows (y + 1) y
                                (Some curEdge)
                            else
                              find_closest_border_loop procRank border isVisited N nbRows (y + 1)
                                yOpt smallest))
                  else
                    find_closest_border_loop procRank border isVisited N nbRows (y + 1) yOpt
                      smallest)
            else None)
         else None)
      else Some yOpt)"
  unfolding assms(1-3)
  by (subst find_closest_border_loop.simps) (simp only: int32_row [OF assms(4,5)])

lemma add_vertex_to_border_loop_unfold:
  assumes "procRank = int r" and "nbRows = int b" and "N = int n" and "y = int y0"
    and "newVertex = int new"
    and "y0 < b" and "(r + 1) * b \<le> 2 ^ 31" and "new < n" and "b * n \<le> 2 ^ 31"
  shows "add_vertex_to_border_loop procRank adj N newVertex border isVisited nbRows y =
     (if y < nbRows then
        (if procRank * nbRows + y \<ge> N then Some border
         else if 0 \<le> procRank * nbRows + y \<and> nat (procRank * nbRows + y) < length isVisited then
           (if isVisited ! nat (procRank * nbRows + y) \<noteq> 0 then
              add_vertex_to_border_loop procRank adj N newVertex border isVisited nbRows (y + 1)
            else if 0 \<le> y * N + newVertex \<and> nat (y * N + newVertex) < length adj then
              (let w = adj ! nat (y * N + newVertex)
               in if w = 0 then
                    add_vertex_to_border_loop procRank adj N newVertex border isVisited nbRows
                      (y + 1)
                  else if 0 \<le> y \<and> nat y < length border then
                    (let curEdge = init_edge (bz (border ! nat y)) y (bw (border ! nat y));
                         candidate = init_edge newVertex y w
                     in if bw (border ! nat y) = 0 \<or> cmp_edges curEdge candidate > 0 then
                          add_vertex_to_border_loop procRank adj N newVertex
                            (border[nat y := \<lparr>bw = w, bz = newVertex\<rparr>]) isVisited nbRows (y + 1)
                        else
                          add_vertex_to_border_loop procRank adj N newVertex border isVisited
                            nbRows (y + 1))
                  else None)
            else None)
         else None)
      else Some border)"
  unfolding assms(1-5)
  by (subst add_vertex_to_border_loop.simps)
     (simp only: int32_row [OF assms(6,7)] int32_entry(1) [OF assms(6,8,9)])

lemma create_border_loop_correct:
  assumes len: "length G = n * n"
    and rb: "(r + 1) * b \<le> 2 ^ 31" and bn: "b * n \<le> 2 ^ 31"
  shows "length border = b \<Longrightarrow> y0 \<le> b \<Longrightarrow>
     \<exists>border'. create_border_loop (int r) (int b) (int n) (row_block G n b r) border (int y0)
                  = Some border'
        \<and> length border' = b
        \<and> (\<forall>y < b. border' ! y =
              (if y0 \<le> y \<and> r * b + y < n then \<lparr>bw = G ! ((r * b + y) * n), bz = 0\<rparr>
               else border ! y))"
proof (induction "b - y0" arbitrary: border y0)
  case 0
  then have "\<not> int y0 < int b" by simp
  then have "create_border_loop (int r) (int b) (int n) (row_block G n b r) border (int y0)
      = Some border"
    by (subst create_border_loop.simps) simp
  with 0 show ?case by auto
next
  case (Suc k)
  then have y: "y0 < b" by linarith
  then have yb: "int y0 < int b" by simp
  let ?adj = "row_block G n b r"
  show ?case
  proof (cases "r * b + y0 < n")
    case False
    then have "int r * int b + int y0 \<ge> int n" by (simp only: int_index_ge)
    then have "create_border_loop (int r) (int b) (int n) ?adj border (int y0) = Some border"
      using yb by (subst create_border_loop_unfold [OF refl refl refl refl y rb bn]) simp
    moreover have "\<not> (y0 \<le> y \<and> r * b + y < n)" for y using False by auto
    then have "\<forall>y < b. border ! y =
              (if y0 \<le> y \<and> r * b + y < n then \<lparr>bw = G ! ((r * b + y) * n), bz = 0\<rparr>
               else border ! y)" by auto
    ultimately show ?thesis using Suc.prems(1) by blast
  next
    case True
    then have lt: "\<not> int r * int b + int y0 \<ge> int n" by (simp only: int_index_ge)
    have n0: "0 < n" using True by simp
    from row_block_nth [OF len y True n0] have
      idx: "y0 * n < length ?adj" "?adj ! (y0 * n) = G ! ((r * b + y0) * n)"
      by simp_all
    have yn: "nat (int y0 * int n) = y0 * n" using nat_index [of y0 n 0] by simp
    let ?b1 = "border[y0 := \<lparr>bw = G ! ((r * b + y0) * n), bz = 0\<rparr>]"
    have k: "k = b - Suc y0" using Suc.hyps(2) by linarith
    have "length ?b1 = b" using Suc.prems(1) by simp
    from Suc.hyps(1) [OF k this] y obtain border' where
      h: "create_border_loop (int r) (int b) (int n) ?adj ?b1 (int (Suc y0)) = Some border'"
         "length border' = b"
         "\<forall>y < b. border' ! y =
              (if Suc y0 \<le> y \<and> r * b + y < n then \<lparr>bw = G ! ((r * b + y) * n), bz = 0\<rparr>
               else ?b1 ! y)"
      by auto
    have nxt: "int y0 + 1 = int (Suc y0)" by simp
    have "create_border_loop (int r) (int b) (int n) ?adj border (int y0) = Some border'"
      using yb lt idx Suc.prems(1) y h(1)
      by (subst create_border_loop_unfold [OF refl refl refl refl y rb bn]) (simp add: yn nxt del: of_nat_Suc of_nat_mult of_nat_add)
    moreover have "border' ! y =
              (if y0 \<le> y \<and> r * b + y < n then \<lparr>bw = G ! ((r * b + y) * n), bz = 0\<rparr>
               else border ! y)" if "y < b" for y
    proof (cases "y = y0")
      case True
      with h(3) that \<open>r * b + y0 < n\<close> Suc.prems(1) show ?thesis by simp
    next
      case False
      with h(3) that show ?thesis by auto
    qed
    ultimately show ?thesis using h(2) by simp
  qed
qed

lemma nat_index': "nat (int y + int r * int b) = r * b + y"
proof -
  have "int y + int r * int b = int (r * b + y)" by simp
  then show ?thesis by (simp only: nat_int)
qed

lemma nat_index'': "nat (int r * int b + int y) = r * b + y"
  using nat_index [of r b y] .

lemma find_closest_border_loop_correct:
  assumes lb: "length border = b" and lv: "length V = n"
    and rb: "(r + 1) * b \<le> 2 ^ 31"
  shows "(yOpt \<noteq> - 1 \<longrightarrow> smallest \<noteq> None) \<Longrightarrow>
    \<exists>yOpt'. find_closest_border_loop (int r) border V (int n) (int b) (int y0) yOpt smallest
               = Some yOpt'
      \<and> (yOpt' = yOpt \<or> (\<exists>y. y0 \<le> y \<and> cand n b V r border y \<and> yOpt' = int y))
      \<and> (yOpt \<noteq> - 1 \<longrightarrow> yOpt' \<noteq> - 1)
      \<and> ((\<exists>y. y0 \<le> y \<and> cand n b V r border y) \<longrightarrow> yOpt' \<noteq> - 1)"
proof (induction "b - y0" arbitrary: y0 yOpt smallest)
  case 0
  then have "\<not> int y0 < int b" by simp
  then have "find_closest_border_loop (int r) border V (int n) (int b) (int y0) yOpt smallest
      = Some yOpt"
    by (subst find_closest_border_loop.simps) simp
  moreover have "\<not> (y0 \<le> y \<and> cand n b V r border y)" for y
    using 0 by (auto simp: cand_def)
  ultimately show ?case by blast
next
  case (Suc k)
  then have y: "y0 < b" by linarith
  then have yb: "int y0 < int b" by simp
  have k: "k = b - Suc y0" using Suc.hyps(2) by linarith
  have nxt: "int y0 + 1 = int (Suc y0)" by simp
  let ?loop = "find_closest_border_loop (int r) border V (int n) (int b)"
  show ?case
  proof (cases "r * b + y0 < n")
    case False
    then have "int r * int b + int y0 \<ge> int n" by (simp only: int_index_ge)
    then have "?loop (int y0) yOpt smallest = Some yOpt"
      using yb by (subst find_closest_border_loop_unfold [OF refl refl refl y rb]) simp
    moreover have "\<not> (y0 \<le> y \<and> cand n b V r border y)" for y
      using False by (auto simp: cand_def)
    ultimately show ?thesis by blast
  next
    case True
    then have lt: "\<not> int r * int b + int y0 \<ge> int n" by (simp only: int_index_ge)
    have inV: "r * b + y0 < length V" using True lv by simp
    have inB: "y0 < length border" using y lb by simp
    have later: "(\<exists>y. y0 \<le> y \<and> cand n b V r border y)
        \<longleftrightarrow> cand n b V r border y0 \<or> (\<exists>y. Suc y0 \<le> y \<and> cand n b V r border y)"
      by (metis Suc_leI le_neq_implies_less order_refl Suc_leD)
    show ?thesis
    proof (cases "cand n b V r border y0")
      case False
      then have c: "V ! (r * b + y0) \<noteq> 0 \<or> bw (border ! y0) = 0"
        using y True by (simp add: cand_def)
      have unf: "?loop (int y0) yOpt smallest = ?loop (int (Suc y0)) yOpt smallest"
        using yb lt inV inB c
        by (subst find_closest_border_loop_unfold [OF refl refl refl y rb])
          (auto simp: nat_index' nxt Let_def simp del: of_nat_Suc of_nat_mult of_nat_add)
      from Suc.hyps(1) [OF k Suc.prems] obtain yOpt' where
        "?loop (int (Suc y0)) yOpt smallest = Some yOpt'"
        "yOpt' = yOpt \<or> (\<exists>y. Suc y0 \<le> y \<and> cand n b V r border y \<and> yOpt' = int y)"
        "yOpt \<noteq> - 1 \<longrightarrow> yOpt' \<noteq> - 1"
        "(\<exists>y. Suc y0 \<le> y \<and> cand n b V r border y) \<longrightarrow> yOpt' \<noteq> - 1"
        by blast
      with unf False later show ?thesis by (metis Suc_leD)
    next
      case cd: True
      then have c: "V ! (r * b + y0) = 0" "bw (border ! y0) \<noteq> 0" by (simp_all add: cand_def)
      define cur where "cur = init_edge (int r * int b + int y0) (bz (border ! y0)) (bw (border ! y0))"
      have take: "?loop (int y0) yOpt smallest = ?loop (int (Suc y0)) (int y0) (Some cur)"
        if "yOpt = - 1 \<or> (\<exists>s. smallest = Some s \<and> cmp_edges s cur > 0)"
        using yb lt inV inB c that
        by (subst find_closest_border_loop_unfold [OF refl refl refl y rb])
          (auto simp: nat_index' nxt Let_def cur_def simp del: of_nat_Suc of_nat_mult of_nat_add)
      have keep: "?loop (int y0) yOpt smallest = ?loop (int (Suc y0)) yOpt smallest"
        if "yOpt \<noteq> - 1" "\<exists>s. smallest = Some s \<and> \<not> cmp_edges s cur > 0"
        using yb lt inV inB c that
        by (subst find_closest_border_loop_unfold [OF refl refl refl y rb])
          (auto simp: nat_index' nxt Let_def cur_def simp del: of_nat_Suc of_nat_mult of_nat_add)
      show ?thesis
      proof (cases "yOpt = - 1 \<or> (\<exists>s. smallest = Some s \<and> cmp_edges s cur > 0)")
        case True
        have "int y0 \<noteq> - 1 \<longrightarrow> Some cur \<noteq> None" by simp
        from Suc.hyps(1) [OF k this] obtain yOpt' where
          h: "?loop (int (Suc y0)) (int y0) (Some cur) = Some yOpt'"
          "yOpt' = int y0 \<or> (\<exists>y. Suc y0 \<le> y \<and> cand n b V r border y \<and> yOpt' = int y)"
          "int y0 \<noteq> - 1 \<longrightarrow> yOpt' \<noteq> - 1"
          by blast
        have "yOpt' \<noteq> - 1" using h(3) by simp
        moreover have "\<exists>y. y0 \<le> y \<and> cand n b V r border y \<and> yOpt' = int y"
          using h(2) cd by (metis Suc_leD order_refl)
        ultimately show ?thesis using take [OF True] h(1) by simp
      next
        case False
        then have ne: "yOpt \<noteq> - 1" by simp
        with Suc.prems obtain s where s: "smallest = Some s" by auto
        with False have "\<not> cmp_edges s cur > 0" by simp
        with s have ex: "\<exists>s. smallest = Some s \<and> \<not> cmp_edges s cur > 0" by simp
        from Suc.hyps(1) [OF k Suc.prems] obtain yOpt' where
          h: "?loop (int (Suc y0)) yOpt smallest = Some yOpt'"
          "yOpt' = yOpt \<or> (\<exists>y. Suc y0 \<le> y \<and> cand n b V r border y \<and> yOpt' = int y)"
          "yOpt \<noteq> - 1 \<longrightarrow> yOpt' \<noteq> - 1"
          by blast
        have "yOpt' = yOpt \<or> (\<exists>y. y0 \<le> y \<and> cand n b V r border y \<and> yOpt' = int y)"
          using h(2) by (metis Suc_leD)
        with h(1,3) ne keep [OF ne ex] show ?thesis by simp
      qed
    qed
  qed
qed

lemma find_closest_border_correct:
  assumes lb: "length border = b" and lv: "length V = n"
    and rb: "(r + 1) * b \<le> 2 ^ 31"
  shows "\<exists>yOpt. find_closest_border (int r) border V (int n) (int b) = Some yOpt
      \<and> (yOpt = - 1 \<or> (\<exists>y. cand n b V r border y \<and> yOpt = int y))
      \<and> ((\<exists>y. cand n b V r border y) \<longrightarrow> yOpt \<noteq> - 1)"
proof -
  have "(- 1 :: int) \<noteq> - 1 \<longrightarrow> (None :: Edge option) \<noteq> None" by simp
  from find_closest_border_loop_correct [OF lb lv rb this, of 0] show ?thesis
    unfolding find_closest_border_def by auto
qed

definition offer :: "int option list \<Rightarrow> int \<Rightarrow> bool" where
  "offer buf v \<longleftrightarrow> v \<noteq> - 1 \<and> (\<exists>z w. buf = [Some v, Some z, Some w])"

definition contribution :: "int option list \<Rightarrow> bool" where
  "contribution buf \<longleftrightarrow> buf = [Some (- 1), None, None] \<or> (\<exists>v. offer buf v)"

lemma select_new_vertex_loop_correct:
  assumes lp: "length bufs = p" and cs: "\<forall>r < p. contribution (bufs ! r)"
  shows "\<exists>id' s'. select_new_vertex_loop (int p) (concat bufs) (int k) id0 smallest
                 = Some (id', s')
      \<and> (id' = id0 \<or> (\<exists>r. k \<le> r \<and> r < p \<and> offer (bufs ! r) id'))
      \<and> (id0 \<noteq> - 1 \<longrightarrow> id' \<noteq> - 1)
      \<and> ((\<exists>r v. k \<le> r \<and> r < p \<and> offer (bufs ! r) v) \<longrightarrow> id' \<noteq> - 1)"
proof (induction "p - k" arbitrary: k id0 smallest)
  case 0
  then have "\<not> int k < int p" by simp
  then have "select_new_vertex_loop (int p) (concat bufs) (int k) id0 smallest
      = Some (id0, smallest)"
    by (subst select_new_vertex_loop.simps) simp
  moreover have "\<not> (k \<le> r \<and> r < p \<and> offer (bufs ! r) v)" for r v
    using 0 by auto
  ultimately show ?case by blast
next
  case (Suc m)
  then have kp: "k < p" by linarith
  have m: "m = p - Suc k" using Suc.hyps(2) by linarith
  have nxt: "int k + 1 = int (Suc k)" by simp
  let ?loop = "select_new_vertex_loop (int p) (concat bufs)"
  have l3: "length b = 3" if "b \<in> set bufs" for b
  proof -
    from that obtain r where "r < p" "b = bufs ! r" using lp by (auto simp: in_set_conv_nth)
    with cs show ?thesis by (auto simp: contribution_def offer_def)
  qed
  have lc: "length (concat bufs) = 3 * p" using concat_triples(1) [of bufs] l3 lp by simp
  have nth: "concat bufs ! (k * 3 + i) = bufs ! k ! i" if "i < 3" for i
    using concat_triples(2) [where bufs = bufs and r = k and i = i] l3 kp lp that by simp
  have i0: "nat (int k * 3) = k * 3" and i1: "nat (int k * 3 + 1) = k * 3 + 1"
    and i2: "nat (int k * 3 + 2) = k * 3 + 2"
    by (simp_all add: nat_mult_distrib nat_add_distrib)
  have inb: "0 \<le> int k \<and> nat (int k * 3 + 2) < length (concat bufs)"
    unfolding i2 lc using kp by simp
  have up: "\<exists>r. k \<le> r \<and> r < p \<and> offer (bufs ! r) v"
    if "\<exists>r. Suc k \<le> r \<and> r < p \<and> offer (bufs ! r) v" for v
  proof -
    from that obtain r where "Suc k \<le> r" "r < p" "offer (bufs ! r) v" by blast
    then have "k \<le> r \<and> r < p \<and> offer (bufs ! r) v" by simp
    then show ?thesis ..
  qed
  have down: "\<exists>r v. Suc k \<le> r \<and> r < p \<and> offer (bufs ! r) v"
    if "\<exists>r v. k \<le> r \<and> r < p \<and> offer (bufs ! r) v" "\<And>v. \<not> offer (bufs ! k) v"
  proof -
    from that(1) obtain r v where r: "k \<le> r" "r < p" "offer (bufs ! r) v" by blast
    with that(2) have "r \<noteq> k" by blast
    with r have "Suc k \<le> r \<and> r < p \<and> offer (bufs ! r) v" by simp
    then show ?thesis by blast
  qed
  from cs [rule_format, OF kp] show ?case
    unfolding contribution_def
  proof
    assume sent: "bufs ! k = [Some (- 1), None, None]"
    then have e0: "concat bufs ! (k * 3) = Some (- 1)" using nth [of 0] by simp
    have no: "\<not> offer (bufs ! k) v" for v using sent by (simp add: offer_def)
    have unf: "?loop (int k) id0 smallest = ?loop (int (Suc k)) id0 smallest"
      using kp inb e0
      by (subst select_new_vertex_loop.simps)
        (simp add: i0 nxt del: of_nat_Suc of_nat_mult of_nat_add)
    from Suc.hyps(1) [OF m, of id0 smallest] obtain id' s' where
      h: "?loop (int (Suc k)) id0 smallest = Some (id', s')"
      "id' = id0 \<or> (\<exists>r. Suc k \<le> r \<and> r < p \<and> offer (bufs ! r) id')"
      "id0 \<noteq> - 1 \<longrightarrow> id' \<noteq> - 1"
      "(\<exists>r v. Suc k \<le> r \<and> r < p \<and> offer (bufs ! r) v) \<longrightarrow> id' \<noteq> - 1"
      by blast
    have a: "id' = id0 \<or> (\<exists>r. k \<le> r \<and> r < p \<and> offer (bufs ! r) id')"
      using h(2) up [of id'] by blast
    have b: "(\<exists>r v. k \<le> r \<and> r < p \<and> offer (bufs ! r) v) \<longrightarrow> id' \<noteq> - 1"
      using h(4) down no by blast
    show ?thesis unfolding unf
      by (rule exI [of _ id'], rule exI [of _ s']) (use h(1,3) a b in simp)
  next
    assume "\<exists>v. offer (bufs ! k) v"
    then obtain v z w where off: "offer (bufs ! k) v" and v: "v \<noteq> - 1"
      and buf: "bufs ! k = [Some v, Some z, Some w]"
      by (auto simp: offer_def)
    have e: "concat bufs ! (k * 3) = Some v" "concat bufs ! (k * 3 + 1) = Some z"
      "concat bufs ! (k * 3 + 2) = Some w"
      using nth [of 0] nth [of 1] nth [of 2] buf by simp_all
    define cur where "cur = init_edge v z w"
    show ?thesis
    proof (cases "id0 = - 1 \<or> cmp_edges smallest cur > 0")
      case True
      have unf: "?loop (int k) id0 smallest = ?loop (int (Suc k)) v cur"
        using kp inb e v True
        by (subst select_new_vertex_loop.simps)
          (simp add: i0 i1 i2 nxt cur_def Let_def del: of_nat_Suc of_nat_mult of_nat_add)
      from Suc.hyps(1) [OF m, of v cur] obtain id' s' where
        h: "?loop (int (Suc k)) v cur = Some (id', s')"
        "id' = v \<or> (\<exists>r. Suc k \<le> r \<and> r < p \<and> offer (bufs ! r) id')"
        "v \<noteq> - 1 \<longrightarrow> id' \<noteq> - 1"
        by blast
      have "k \<le> k \<and> k < p \<and> offer (bufs ! k) v" using kp off by simp
      then have "\<exists>r. k \<le> r \<and> r < p \<and> offer (bufs ! r) v" ..
      then have a: "\<exists>r. k \<le> r \<and> r < p \<and> offer (bufs ! r) id'"
        using h(2) up [of id'] by blast
      have b: "id' \<noteq> - 1" using h(3) v by simp
      show ?thesis unfolding unf
        by (rule exI [of _ id'], rule exI [of _ s']) (use h(1) a b in simp)
    next
      case False
      then have ne: "id0 \<noteq> - 1" by simp
      have unf: "?loop (int k) id0 smallest = ?loop (int (Suc k)) id0 smallest"
        using kp inb e v False
        by (subst select_new_vertex_loop.simps)
          (simp add: i0 i1 i2 nxt cur_def Let_def del: of_nat_Suc of_nat_mult of_nat_add)
      from Suc.hyps(1) [OF m, of id0 smallest] obtain id' s' where
        h: "?loop (int (Suc k)) id0 smallest = Some (id', s')"
        "id' = id0 \<or> (\<exists>r. Suc k \<le> r \<and> r < p \<and> offer (bufs ! r) id')"
        "id0 \<noteq> - 1 \<longrightarrow> id' \<noteq> - 1"
        by blast
      have a: "id' = id0 \<or> (\<exists>r. k \<le> r \<and> r < p \<and> offer (bufs ! r) id')"
        using h(2) up [of id'] by blast
      have b: "id' \<noteq> - 1" using h(3) ne by simp
      show ?thesis unfolding unf
        by (rule exI [of _ id'], rule exI [of _ s']) (use h(1) a b in simp)
    qed
  qed
qed

lemma select_new_vertex_correct:
  assumes lp: "length bufs = p" and cs: "\<forall>r < p. contribution (bufs ! r)"
    and ex: "r0 < p" "offer (bufs ! r0) v0"
  shows "\<exists>newVertex s'. select_new_vertex 0 (int p) (MPI_Gather bufs) smallest
                 = Some (newVertex, s')
      \<and> (\<exists>r < p. offer (bufs ! r) newVertex)"
proof -
  from select_new_vertex_loop_correct [OF lp cs, of 0 "- 1" smallest] obtain id' s' where
    h: "select_new_vertex_loop (int p) (concat bufs) (int 0) (- 1) smallest = Some (id', s')
      \<and> (id' = - 1 \<or> (\<exists>r. 0 \<le> r \<and> r < p \<and> offer (bufs ! r) id'))
      \<and> (- 1 \<noteq> (- 1 :: int) \<longrightarrow> id' \<noteq> - 1)
      \<and> ((\<exists>r v. 0 \<le> r \<and> r < p \<and> offer (bufs ! r) v) \<longrightarrow> id' \<noteq> - 1)"
    by (elim exE)
  have "0 \<le> r0 \<and> r0 < p \<and> offer (bufs ! r0) v0" using ex by simp
  then have "\<exists>r v. 0 \<le> r \<and> r < p \<and> offer (bufs ! r) v" by (intro exI)
  with h have ne: "id' \<noteq> - 1" by simp
  with h have "\<exists>r. 0 \<le> r \<and> r < p \<and> offer (bufs ! r) id'" by simp
  then have o: "\<exists>r < p. offer (bufs ! r) id'" by simp
  from h have run: "select_new_vertex_loop (int p) (concat bufs) 0 (- 1) smallest = Some (id', s')"
    by simp
  show ?thesis
    by (rule exI [of _ id'], rule exI [of _ s'])
      (use run ne o in \<open>simp add: select_new_vertex_def MPI_Gather_def\<close>)
qed

lemma add_vertex_to_border_loop_correct:
  assumes len: "length G = n * n" and lv: "length V = n" and nv: "new < n"
    and rb: "(r + 1) * b \<le> 2 ^ 31" and bn: "b * n \<le> 2 ^ 31"
  shows "length border = b \<Longrightarrow>
     \<exists>border'. add_vertex_to_border_loop (int r) (row_block G n b r) (int n) (int new) border V
                  (int b) (int y0) = Some border'
        \<and> length border' = b
        \<and> (\<forall>y < b. bw (border' ! y) \<noteq> 0 \<longleftrightarrow>
              bw (border ! y) \<noteq> 0
              \<or> (y0 \<le> y \<and> r * b + y < n \<and> V ! (r * b + y) = 0
                  \<and> G ! ((r * b + y) * n + new) \<noteq> 0))"
proof (induction "b - y0" arbitrary: border y0)
  case 0
  then have "\<not> int y0 < int b" by simp
  then have "add_vertex_to_border_loop (int r) (row_block G n b r) (int n) (int new) border V
                  (int b) (int y0) = Some border"
    by (subst add_vertex_to_border_loop.simps) simp
  moreover have "\<forall>y < b. bw (border ! y) \<noteq> 0 \<longleftrightarrow>
              bw (border ! y) \<noteq> 0
              \<or> (y0 \<le> y \<and> r * b + y < n \<and> V ! (r * b + y) = 0
                  \<and> G ! ((r * b + y) * n + new) \<noteq> 0)"
    using 0 by auto
  ultimately show ?case using 0 by blast
next
  case (Suc k)
  then have y: "y0 < b" by linarith
  then have yb: "int y0 < int b" by simp
  have k: "k = b - Suc y0" using Suc.hyps(2) by linarith
  have nxt: "int y0 + 1 = int (Suc y0)" by simp
  let ?adj = "row_block G n b r"
  let ?loop = "add_vertex_to_border_loop (int r) ?adj (int n) (int new)"
  let ?hit = "\<lambda>y. r * b + y < n \<and> V ! (r * b + y) = 0 \<and> G ! ((r * b + y) * n + new) \<noteq> 0"
  show ?case
  proof (cases "r * b + y0 < n")
    case False
    then have "int r * int b + int y0 \<ge> int n" by (simp only: int_index_ge)
    then have "?loop border V (int b) (int y0) = Some border"
      using yb by (subst add_vertex_to_border_loop_unfold [OF refl refl refl refl refl y rb nv bn]) simp
    moreover have "\<forall>y < b. bw (border ! y) \<noteq> 0 \<longleftrightarrow>
              bw (border ! y) \<noteq> 0 \<or> (y0 \<le> y \<and> ?hit y)"
      using False by auto
    ultimately show ?thesis using Suc.prems by blast
  next
    case True
    then have lt: "\<not> int r * int b + int y0 \<ge> int n" by (simp only: int_index_ge)
    have inV: "r * b + y0 < length V" using True lv by simp
    have inB: "y0 < length border" using y Suc.prems by simp
    from row_block_nth [OF len y True nv] have
      idx: "y0 * n + new < length ?adj" "?adj ! (y0 * n + new) = G ! ((r * b + y0) * n + new)"
      by simp_all
    have step: "\<exists>border1. ?loop border V (int b) (int y0) = ?loop border1 V (int b) (int (Suc y0))
        \<and> length border1 = b \<and> (\<forall>y. y \<noteq> y0 \<longrightarrow> border1 ! y = border ! y)
        \<and> (bw (border1 ! y0) \<noteq> 0 \<longleftrightarrow> bw (border ! y0) \<noteq> 0 \<or> ?hit y0)"
    proof (cases "?hit y0")
      case False
      then have c: "V ! (r * b + y0) \<noteq> 0 \<or> G ! ((r * b + y0) * n + new) = 0"
        using True by simp
      have "?loop border V (int b) (int y0) = ?loop border V (int b) (int (Suc y0))"
        using yb lt inV inB c idx
        by (subst add_vertex_to_border_loop_unfold [OF refl refl refl refl refl y rb nv bn])
          (auto simp: nat_index nat_index'' nxt Let_def
             simp del: of_nat_Suc of_nat_mult of_nat_add)
      with False Suc.prems show ?thesis by blast
    next
      case hit: True
      then have c: "V ! (r * b + y0) = 0" "G ! ((r * b + y0) * n + new) \<noteq> 0" by simp_all
      define w where "w = G ! ((r * b + y0) * n + new)"
      define upd where "upd \<longleftrightarrow> bw (border ! y0) = 0
        \<or> cmp_edges (init_edge (bz (border ! y0)) (int y0) (bw (border ! y0)))
              (init_edge (int new) (int y0) w) > 0"
      show ?thesis
      proof (cases upd)
        case True
        let ?b1 = "border[y0 := \<lparr>bw = w, bz = int new\<rparr>]"
        have "?loop border V (int b) (int y0) = ?loop ?b1 V (int b) (int (Suc y0))"
          using yb lt inV inB c idx True [unfolded upd_def]
          by (subst add_vertex_to_border_loop_unfold [OF refl refl refl refl refl y rb nv bn])
            (simp add: nat_index nat_index'' nxt Let_def w_def
               del: of_nat_Suc of_nat_mult of_nat_add)
        moreover have "length ?b1 = b" using Suc.prems by simp
        moreover have "\<forall>y. y \<noteq> y0 \<longrightarrow> ?b1 ! y = border ! y" by simp
        moreover have "bw (?b1 ! y0) \<noteq> 0" using inB c(2) by (simp add: w_def)
        ultimately show ?thesis using hit by blast
      next
        case False
        then have nz: "bw (border ! y0) \<noteq> 0" by (simp add: upd_def)
        have "?loop border V (int b) (int y0) = ?loop border V (int b) (int (Suc y0))"
          using yb lt inV inB c idx False [unfolded upd_def]
          by (subst add_vertex_to_border_loop_unfold [OF refl refl refl refl refl y rb nv bn])
            (simp add: nat_index nat_index'' nxt Let_def w_def
               del: of_nat_Suc of_nat_mult of_nat_add)
        with nz Suc.prems show ?thesis by blast
      qed
    qed
    then obtain border1 where
      s: "?loop border V (int b) (int y0) = ?loop border1 V (int b) (int (Suc y0))"
        "length border1 = b" "\<forall>y. y \<noteq> y0 \<longrightarrow> border1 ! y = border ! y"
        "bw (border1 ! y0) \<noteq> 0 \<longleftrightarrow> bw (border ! y0) \<noteq> 0 \<or> ?hit y0"
      by blast
    from Suc.hyps(1) [OF k s(2)] obtain border' where
      h: "?loop border1 V (int b) (int (Suc y0)) = Some border'" "length border' = b"
        "\<forall>y < b. bw (border' ! y) \<noteq> 0 \<longleftrightarrow>
              bw (border1 ! y) \<noteq> 0 \<or> (Suc y0 \<le> y \<and> ?hit y)"
      by blast
    have "bw (border' ! y) \<noteq> 0 \<longleftrightarrow> bw (border ! y) \<noteq> 0 \<or> (y0 \<le> y \<and> ?hit y)"
      if "y < b" for y
    proof (cases "y = y0")
      case True
      with h(3) that s(4) show ?thesis by simp
    next
      case False
      then have "border1 ! y = border ! y" using s(3) by simp
      moreover have "Suc y0 \<le> y \<longleftrightarrow> y0 \<le> y" using False by auto
      ultimately show ?thesis using h(3) that by simp
    qed
    then show ?thesis using h(1,2) s(1) by simp
  qed
qed

lemma border_ok_step:
  assumes bo: "border_ok G n b V r border" and lv: "length V = n"
    and nv: "new < n" and lb: "length border' = b"
    and upd: "\<forall>y < b. bw (border' ! y) \<noteq> 0 \<longleftrightarrow>
              bw (border ! y) \<noteq> 0
              \<or> (0 \<le> y \<and> r * b + y < n \<and> (V[new := 1]) ! (r * b + y) = 0
                  \<and> G ! ((r * b + y) * n + new) \<noteq> 0)"
  shows "border_ok G n b (V[new := 1]) r border'"
  unfolding border_ok_def
proof (intro conjI allI impI)
  show "length border' = b" by (rule lb)
next
  fix y
  assume y: "y < b" and a: "r * b + y < n \<and> V[new := 1] ! (r * b + y) = 0"
  let ?v = "r * b + y" and ?V = "V[new := 1]"
  have Vn: "?V ! new = 1" using nv lv by simp
  have vn: "?v \<noteq> new" using a Vn by auto
  then have V0: "V ! ?v = 0" using a by simp
  have vis: "?V ! u \<noteq> 0 \<longleftrightarrow> V ! u \<noteq> 0 \<or> u = new" for u
    using Vn by (cases "u = new") simp_all
  from bo y a V0 have old: "bw (border ! y) \<noteq> 0 \<longleftrightarrow> (\<exists>u < n. V ! u \<noteq> 0 \<and> G ! (?v * n + u) \<noteq> 0)"
    unfolding border_ok_def by blast
  from upd y a have new: "bw (border' ! y) \<noteq> 0 \<longleftrightarrow>
      bw (border ! y) \<noteq> 0 \<or> G ! (?v * n + new) \<noteq> 0"
    by simp
  show "bw (border' ! y) \<noteq> 0 \<longleftrightarrow> (\<exists>u < n. ?V ! u \<noteq> 0 \<and> G ! (?v * n + u) \<noteq> 0)"
    unfolding new old vis using nv by blast
qed

lemma frontier_exists:
  assumes g: "graph_ok N G" and c: "connected N G" and lv: "length V = nat N"
    and v0: "V ! 0 \<noteq> 0" and some: "visited V < nat N"
  shows "\<exists>u v. u < nat N \<and> v < nat N \<and> V ! u \<noteq> 0 \<and> V ! v = 0 \<and> G ! (v * nat N + u) \<noteq> 0"
proof (rule ccontr)
  let ?n = "nat N"
  assume no: "\<not> ?thesis"
  from g have sym: "\<forall>u < ?n. \<forall>v < ?n. G ! (u * ?n + v) = G ! (v * ?n + u)"
    by (simp add: graph_ok_def)
  have step: "V ! v \<noteq> 0" if "V ! u \<noteq> 0" "(u, v) \<in> adjacent G ?n" for u v
  proof
    assume z: "V ! v = 0"
    from that(2) have uv: "u < ?n" "v < ?n" "G ! (u * ?n + v) \<noteq> 0" by (simp_all add: adjacent_def)
    with sym have "G ! (v * ?n + u) \<noteq> 0" by simp
    with uv that(1) z no show False by blast
  qed
  have reach: "V ! v \<noteq> 0" if "(0, v) \<in> (adjacent G ?n)\<^sup>*" for v
    using that
  proof (induction rule: rtrancl_induct)
    case base
    show ?case by (rule v0)
  next
    case (step y z)
    from step(3) step(2) show ?case
      by (rule \<open>\<And>u v. V ! u \<noteq> 0 \<Longrightarrow> (u, v) \<in> adjacent G ?n \<Longrightarrow> V ! v \<noteq> 0\<close>)
  qed
  have "visited V = length V"
  proof (rule visited_all)
    fix k assume "k < length V"
    with c lv have "(0, k) \<in> (adjacent G ?n)\<^sup>*" by (simp add: connected_def)
    then show "V ! k \<noteq> 0" by (rule reach)
  qed
  with some lv show False by simp
qed

definition par_inv ::
  "int list \<Rightarrow> nat \<Rightarrow> nat \<Rightarrow> nat \<Rightarrow> (BorderNode list \<times> int list) list \<Rightarrow> int list \<Rightarrow> bool" where
  "par_inv G n b p states V \<longleftrightarrow>
     length states = p \<and> length V = n
     \<and> (\<forall>r < p. snd (states ! r) = V \<and> border_ok G n b V r (fst (states ! r)))"

lemma send_edge_correct:
  assumes lb: "length border = b"
    and y: "yOpt = - 1 \<or> (\<exists>y. cand n b V r border y \<and> yOpt = int y)"
    and ex: "(\<exists>y. cand n b V r border y) \<longrightarrow> yOpt \<noteq> - 1"
    and rb: "(r + 1) * b \<le> 2 ^ 31"
  shows "\<exists>buf. send_edge (int r) border (int b) yOpt = Some buf \<and> contribution buf
      \<and> (\<forall>v. offer buf v \<longrightarrow> (\<exists>y. cand n b V r border y \<and> v = int (r * b + y)))
      \<and> ((\<exists>y. cand n b V r border y) \<longrightarrow> (\<exists>v. offer buf v))"
proof (cases "yOpt = - 1")
  case True
  then have "send_edge (int r) border (int b) yOpt = Some [Some (- 1), None, None]"
    by (simp add: send_edge_def)
  moreover have "contribution [Some (- 1), None, None]" by (simp add: contribution_def)
  moreover have "\<not> offer [Some (- 1), None, None] v" for v by (simp add: offer_def)
  moreover have "\<not> (\<exists>y. cand n b V r border y)" using ex True by blast
  ultimately show ?thesis by simp
next
  case False
  with y obtain y0 where y0: "cand n b V r border y0" "yOpt = int y0" by blast
  then have inb: "y0 < length border" using lb by (simp add: cand_def)
  let ?buf = "[Some (int y0 + int r * int b), Some (bz (border ! y0)), Some (bw (border ! y0))]"
  have ne: "int y0 + int r * int b \<noteq> - 1"
  proof -
    have "(0::int) \<le> int y0" "(0::int) \<le> int r * int b" by simp_all
    then show ?thesis by linarith
  qed
  have "y0 < b" using y0(1) by (simp add: cand_def)
  note r32 = int32_row(2) [OF this rb]
  have run: "send_edge (int r) border (int b) yOpt = Some ?buf"
    using False inb y0(2) by (simp add: send_edge_def r32 del: of_nat_mult of_nat_add)
  have off: "offer ?buf (int y0 + int r * int b)" using ne unfolding offer_def by blast
  have only: "\<exists>y. cand n b V r border y \<and> v = int (r * b + y)" if "offer ?buf v" for v
  proof -
    from that have "v = int y0 + int r * int b" by (simp add: offer_def)
    then have "v = int (r * b + y0)" by simp
    with y0(1) show ?thesis by blast
  qed
  have "contribution ?buf" unfolding contribution_def using off by blast
  with run off only show ?thesis by blast
qed

lemma add_vertex_to_border_correct:
  assumes len: "length G = n * n" and lv: "length V = n" and nv: "new < n"
    and bo: "border_ok G n b V r border"
    and rb: "(r + 1) * b \<le> 2 ^ 31" and bn: "b * n \<le> 2 ^ 31"
  shows "\<exists>border'. add_vertex_to_border (int r) numProcs (row_block G n b r) (int n) (int new)
                 border V (int b) = Some (border', V[new := 1])
           \<and> border_ok G n b (V[new := 1]) r border'"
proof -
  from bo have lb: "length border = b" by (simp add: border_ok_def)
  have lv': "length (V[new := 1]) = n" using lv by simp
  from add_vertex_to_border_loop_correct [OF len lv' nv rb bn lb, where ?y0.0 = 0]
  obtain border' where
    h: "add_vertex_to_border_loop (int r) (row_block G n b r) (int n) (int new) border
          (V[new := 1]) (int b) (int 0) = Some border'"
      "length border' = b"
      "\<forall>y < b. bw (border' ! y) \<noteq> 0 \<longleftrightarrow>
              bw (border ! y) \<noteq> 0
              \<or> (0 \<le> y \<and> r * b + y < n \<and> (V[new := 1]) ! (r * b + y) = 0
                  \<and> G ! ((r * b + y) * n + new) \<noteq> 0)"
    by blast
  have "border_ok G n b (V[new := 1]) r border'"
    using bo lv nv h(2,3) by (rule border_ok_step)
  moreover have "add_vertex_to_border (int r) numProcs (row_block G n b r) (int n) (int new)
                 border V (int b) = Some (border', V[new := 1])"
    using h(1) nv lv by (simp add: add_vertex_to_border_def)
  ultimately show ?thesis by blast
qed

lemma parallel_prim_iteration_correct:
  assumes g: "graph_ok (int n) G" and c: "connected (int n) G" and cover: "n \<le> b * p"
    and inv: "par_inv G n b p states V" and v0: "V ! 0 \<noteq> 0" and some: "visited V < n"
    and pb: "p * b \<le> 2 ^ 31" and bn: "b * n \<le> 2 ^ 31"
  shows "\<exists>states' e' new.
           parallel_prim_iteration (int p) (map (row_block G n b) [0..<p]) (int n) states (int b)
             newEdge = Some (states', e')
           \<and> par_inv G n b p states' (V[new := 1]) \<and> new < n \<and> V ! new = 0"
proof -
  let ?B = "\<lambda>r. fst (states ! r)"
  from g have len: "length G = n * n" by (simp add: graph_ok_def)
  from inv have ls: "length states = p" and lv: "length V = n"
    and sV: "\<And>r. r < p \<Longrightarrow> snd (states ! r) = V"
    and bo: "\<And>r. r < p \<Longrightarrow> border_ok G n b V r (?B r)"
    by (simp_all add: par_inv_def)
  have lb: "length (?B r) = b" if "r < p" for r using bo [OF that] by (simp add: border_ok_def)
  have rb: "(r + 1) * b \<le> 2 ^ 31" if "r < p" for r
  proof -
    have "(r + 1) * b \<le> p * b" using that by (intro mult_le_mono1) simp
    with pb show ?thesis by linarith
  qed
  let ?F = "\<lambda>r. find_closest_border (int r) (fst (states ! r)) (snd (states ! r)) (int n) (int b)"
  have "\<exists>y. ?F r = Some y" if "r < p" for r
    using find_closest_border_correct [OF lb [OF that] lv rb [OF that]] sV [OF that] by auto
  then have "\<forall>r < p. \<exists>y. ?F r = Some y" by blast
  from those_upt [of p ?F, OF this] obtain y_min where
    th1: "those (map ?F [0..<p]) = Some y_min" and ym: "\<forall>r < p. ?F r = Some (y_min ! r)"
    by blast
  have y1: "(y_min ! r = - 1 \<or> (\<exists>y. cand n b V r (?B r) y \<and> y_min ! r = int y))
      \<and> ((\<exists>y. cand n b V r (?B r) y) \<longrightarrow> y_min ! r \<noteq> - 1)" if "r < p" for r
    using find_closest_border_correct [OF lb [OF that] lv rb [OF that]] sV [OF that] ym that
    by auto
  let ?S = "\<lambda>r. send_edge (int r) (fst (states ! r)) (int b) (y_min ! r)"
  have s1: "\<exists>buf. ?S r = Some buf \<and> contribution buf
      \<and> (\<forall>v. offer buf v \<longrightarrow> (\<exists>y. cand n b V r (?B r) y \<and> v = int (r * b + y)))
      \<and> ((\<exists>y. cand n b V r (?B r) y) \<longrightarrow> (\<exists>v. offer buf v))" if "r < p" for r
    using y1 [OF that] by (intro send_edge_correct [OF lb [OF that] _ _ rb [OF that]]) blast+
  then have "\<forall>r < p. \<exists>buf. ?S r = Some buf" by blast
  from those_upt [of p ?S, OF this] obtain bufs where
    th2: "those (map ?S [0..<p]) = Some bufs" and lbufs: "length bufs = p"
    and sb: "\<forall>r < p. ?S r = Some (bufs ! r)"
    by blast
  have b1: "contribution (bufs ! r)"
    and b2: "\<And>v. offer (bufs ! r) v \<Longrightarrow> \<exists>y. cand n b V r (?B r) y \<and> v = int (r * b + y)"
    and b3: "\<And>y. cand n b V r (?B r) y \<Longrightarrow> \<exists>v. offer (bufs ! r) v" if "r < p" for r
    using s1 [OF that] sb that by auto
  have lvN: "length V = nat (int n)" using lv by simp
  have someN: "visited V < nat (int n)" using some by simp
  from frontier_exists [OF g c lvN v0 someN] obtain u v where
    uv: "u < n" "v < n" "V ! u \<noteq> 0" "V ! v = 0" "G ! (v * n + u) \<noteq> 0"
    by auto
  have b0: "0 < b" using cover uv(2) by (cases b) simp_all
  define r0 where "r0 = v div b"
  define y0 where "y0 = v mod b"
  have v: "r0 * b + y0 = v" by (simp add: r0_def y0_def)
  have y0b: "y0 < b" using b0 by (simp add: y0_def)
  have r0p: "r0 < p"
  proof -
    have "v < b * p" using uv(2) cover by simp
    then show ?thesis unfolding r0_def by (simp add: less_mult_imp_div_less mult.commute)
  qed
  from bo [OF r0p] have "\<forall>y < b. r0 * b + y < n \<and> V ! (r0 * b + y) = 0 \<longrightarrow>
      (bw (?B r0 ! y) \<noteq> 0 \<longleftrightarrow> (\<exists>u < n. V ! u \<noteq> 0 \<and> G ! ((r0 * b + y) * n + u) \<noteq> 0))"
    by (simp add: border_ok_def)
  from this [rule_format, OF y0b] have
    "bw (?B r0 ! y0) \<noteq> 0 \<longleftrightarrow> (\<exists>u < n. V ! u \<noteq> 0 \<and> G ! (v * n + u) \<noteq> 0)"
    using uv(2,4) unfolding v by simp
  moreover have "\<exists>u < n. V ! u \<noteq> 0 \<and> G ! (v * n + u) \<noteq> 0" using uv(1,3,5) by blast
  ultimately have "bw (?B r0 ! y0) \<noteq> 0" by simp
  then have "cand n b V r0 (?B r0) y0" using y0b uv(2,4) by (simp add: cand_def v)
  from b3 [OF r0p this] obtain v1 where off: "offer (bufs ! r0) v1" by blast
  have cs: "\<forall>r < p. contribution (bufs ! r)" using b1 by simp
  from select_new_vertex_correct [OF lbufs cs r0p off, of newEdge] obtain newVertex e' r1 where
    sel: "select_new_vertex 0 (int p) (MPI_Gather bufs) newEdge = Some (newVertex, e')"
    and r1: "r1 < p" "offer (bufs ! r1) newVertex"
    by blast
  from b2 [OF r1] obtain y1 where y1: "cand n b V r1 (?B r1) y1" "newVertex = int (r1 * b + y1)"
    by blast
  define new where "new = r1 * b + y1"
  have nv: "new < n" "V ! new = 0" using y1(1) by (simp_all add: cand_def new_def)
  have nV: "newVertex = int new" using y1(2) by (simp add: new_def)
  let ?A = "\<lambda>r. add_vertex_to_border (int r) (int p) (map (row_block G n b) [0..<p] ! r) (int n)
                  newVertex (fst (states ! r)) (snd (states ! r)) (int b)"
  have a1: "\<exists>border'. ?A r = Some (border', V[new := 1])
      \<and> border_ok G n b (V[new := 1]) r border'" if "r < p" for r
    using add_vertex_to_border_correct [OF len lv nv(1) bo [OF that] rb [OF that] bn,
        where numProcs = "int p"] sV [OF that] that
    by (simp add: nV)
  then have "\<forall>r < p. \<exists>st. ?A r = Some st" by blast
  from those_upt [of p ?A, OF this] obtain states' where
    th3: "those (map ?A [0..<p]) = Some states'" and ls': "length states' = p"
    and sa: "\<forall>r < p. ?A r = Some (states' ! r)"
    by blast
  have "snd (states' ! r) = V[new := 1] \<and> border_ok G n b (V[new := 1]) r (fst (states' ! r))"
    if "r < p" for r
    using a1 [OF that] sa that by auto
  then have inv': "par_inv G n b p states' (V[new := 1])"
    using ls' lv by (simp add: par_inv_def)
  have "parallel_prim_iteration (int p) (map (row_block G n b) [0..<p]) (int n) states (int b)
             newEdge = Some (states', e')"
    unfolding parallel_prim_iteration_def nat_int th1 option.case th2 sel prod.case th3 ..
  with inv' nv show ?thesis by blast
qed

lemma create_border_correct:
  assumes len: "length G = n * n" and n0: "0 < n"
    and rb: "(r + 1) * b \<le> 2 ^ 31" and bn: "b * n \<le> 2 ^ 31"
  shows "\<exists>border. create_border (int r) (int b) (replicate n 0) (int n) (row_block G n b r)
                = Some (border, (replicate n 0)[0 := 1])
           \<and> border_ok G n b ((replicate n 0)[0 := 1]) r border"
proof -
  let ?V = "(replicate n (0::int))[0 := 1]"
  let ?z = "replicate b \<lparr>bw = 0, bz = 0\<rparr>"
  have "length ?z = b" by simp
  from create_border_loop_correct [OF len rb bn this, where ?y0.0 = 0] obtain border where
    h: "create_border_loop (int r) (int b) (int n) (row_block G n b r) ?z (int 0) = Some border"
      "length border = b"
      "\<forall>y < b. border ! y =
              (if 0 \<le> y \<and> r * b + y < n then \<lparr>bw = G ! ((r * b + y) * n), bz = 0\<rparr>
               else ?z ! y)"
    by auto
  have run: "create_border (int r) (int b) (replicate n 0) (int n) (row_block G n b r)
                = Some (border, ?V)"
    using h(1) n0 by (simp add: create_border_def)
  have vis: "?V ! u \<noteq> 0 \<longleftrightarrow> u = 0" if "u < n" for u
    using that by (cases "u = 0") simp_all
  have "border_ok G n b ?V r border"
    unfolding border_ok_def
  proof (intro conjI allI impI)
    show "length border = b" by (rule h(2))
  next
    fix y
    assume y: "y < b" and a: "r * b + y < n \<and> ?V ! (r * b + y) = 0"
    let ?v = "r * b + y"
    from h(3) y a have "bw (border ! y) = G ! (?v * n)" by simp
    moreover have "(\<exists>u < n. ?V ! u \<noteq> 0 \<and> G ! (?v * n + u) \<noteq> 0) \<longleftrightarrow> G ! (?v * n) \<noteq> 0"
    proof
      assume "\<exists>u < n. ?V ! u \<noteq> 0 \<and> G ! (?v * n + u) \<noteq> 0"
      then obtain u where u: "u < n" "?V ! u \<noteq> 0" "G ! (?v * n + u) \<noteq> 0" by blast
      from u(1,2) have "u = 0" by (simp only: vis)
      with u(3) show "G ! (?v * n) \<noteq> 0" by simp
    next
      assume "G ! (?v * n) \<noteq> 0"
      then have "0 < n \<and> ?V ! 0 \<noteq> 0 \<and> G ! (?v * n + 0) \<noteq> 0" using n0 by simp
      then show "\<exists>u < n. ?V ! u \<noteq> 0 \<and> G ! (?v * n + u) \<noteq> 0" by blast
    qed
    ultimately show "bw (border ! y) \<noteq> 0 \<longleftrightarrow> (\<exists>u < n. ?V ! u \<noteq> 0 \<and> G ! (?v * n + u) \<noteq> 0)"
      by simp
  qed
  with run show ?thesis by blast
qed

lemma parallel_prim_loop_correct:
  assumes g: "graph_ok (int n) G" and c: "connected (int n) G" and cover: "n \<le> b * p"
    and pb: "p * b \<le> 2 ^ 31" and bn: "b * n \<le> 2 ^ 31"
  shows "par_inv G n b p states V \<Longrightarrow> V ! 0 \<noteq> 0 \<Longrightarrow> visited V = Suc k \<Longrightarrow>
     n - 1 \<le> length tree \<Longrightarrow>
     \<exists>tree'. parallel_prim_loop (int p) (map (row_block G n b) [0..<p]) (int n) states (int b)
                tree (int k) = Some tree'
        \<and> length tree' = length tree"
proof (induction "n - 1 - k" arbitrary: states V tree k)
  case 0
  have "visited V \<le> length V" by (rule visited_le)
  with 0 have "\<not> int k < int n - 1" by (simp add: par_inv_def)
  then show ?case by (subst parallel_prim_loop.simps) simp
next
  case (Suc m)
  then have k: "k < n - 1" by linarith
  then have kn: "int k < int n - 1" by linarith
  have inb: "0 \<le> int k \<and> nat (int k) < length tree" using k Suc.prems(4) by simp
  from Suc.prems(1) have lv: "length V = n" by (simp add: par_inv_def)
  have some: "visited V < n" using Suc.prems(3) k by simp
  from parallel_prim_iteration_correct [OF g c cover Suc.prems(1,2) some pb bn,
      where newEdge = "tree ! k"]
  obtain states' e' new where
    it: "parallel_prim_iteration (int p) (map (row_block G n b) [0..<p]) (int n) states (int b)
             (tree ! k) = Some (states', e')"
    and inv': "par_inv G n b p states' (V[new := 1])" and nv: "new < n" "V ! new = 0"
    by blast
  have n0: "new \<noteq> 0"
  proof
    assume "new = 0"
    with nv(2) Suc.prems(2) show False by simp
  qed
  then have v0': "(V[new := 1]) ! 0 \<noteq> 0" using Suc.prems(2) by simp
  have "visited (V[new := 1]) = Suc (visited V)" using nv lv by (intro visited_mark) simp_all
  then have vis': "visited (V[new := 1]) = Suc (Suc k)" using Suc.prems(3) by simp
  have m: "m = n - 1 - Suc k" using Suc.hyps(2) by linarith
  have lt: "n - 1 \<le> length (tree[k := e'])" using Suc.prems(4) by simp
  from Suc.hyps(1) [OF m inv' v0' vis' lt] obtain tree' where
    h: "parallel_prim_loop (int p) (map (row_block G n b) [0..<p]) (int n) states' (int b)
                (tree[k := e']) (int (Suc k)) = Some tree'"
      "length tree' = length tree"
    by auto
  have nxt: "int k + 1 = int (Suc k)" by simp
  have "parallel_prim_loop (int p) (map (row_block G n b) [0..<p]) (int n) states (int b)
                tree (int k) = Some tree'"
    using kn inb it h(1)
    by (subst parallel_prim_loop.simps) (simp add: nxt del: of_nat_Suc)
  with h(2) show ?case by simp
qed

lemma ceil_div_cover:
  assumes "0 \<le> N" "1 \<le> numProcs"
  shows "0 \<le> ceil_div N numProcs \<and> N \<le> ceil_div N numProcs * numProcs"
    and "ceil_div N numProcs * numProcs \<le> N + numProcs - 1"
    and "ceil_div N numProcs \<le> N"
proof -
  let ?q = "(N + numProcs - 1) div numProcs"
  have q0: "0 \<le> ?q" using assms by (simp add: pos_imp_zdiv_nonneg_iff)
  moreover have m: "(N + numProcs - 1) mod numProcs < numProcs"
    "0 \<le> (N + numProcs - 1) mod numProcs" using assms by simp_all
  moreover have e: "?q * numProcs + (N + numProcs - 1) mod numProcs = N + numProcs - 1"
    by simp
  ultimately show "0 \<le> ceil_div N numProcs \<and> N \<le> ceil_div N numProcs * numProcs"
    unfolding ceil_div_def by linarith
  show le: "ceil_div N numProcs * numProcs \<le> N + numProcs - 1"
    unfolding ceil_div_def using m(2) e by linarith
  show "ceil_div N numProcs \<le> N"
  proof (rule ccontr)
    assume "\<not> ceil_div N numProcs \<le> N"
    then have "N + 1 \<le> ceil_div N numProcs" by simp
    then have "(N + 1) * numProcs \<le> ceil_div N numProcs * numProcs"
      using assms(2) by (intro mult_right_mono) simp_all
    with le have "N * numProcs + numProcs \<le> N + numProcs - 1" by (simp add: algebra_simps)
    moreover have "N * 1 \<le> N * numProcs" using assms by (intro mult_left_mono) simp_all
    ultimately show False by simp
  qed
qed

text \<open>
  Claim C5, as the code has it. \<open>create_border\<close> and \<open>add_vertex_to_border\<close> read the row of
  the vertex \<open>procRank * nbRows + y\<close> at the local row \<open>y\<close> of \<open>adj\<close>. So when the \<open>adj\<close> of every
  rank holds the row block of the rank, then on a connected undirected graph (a symmetric
  matrix of non-negative int weights with \<open>N \<ge> 1\<close> vertices and at most \<open>2^31\<close> entries) and
  for every number of processes \<open>parallel_prim\<close> runs all its \<open>N - 1\<close> iterations: in each
  of them some rank contributes a candidate that is not the sentinel, so the assertion
  \<open>idSmallestVertex != -1\<close> of \<open>select_new_vertex\<close> on rank 0 holds, and no array is read
  or written outside its bounds. \<open>N\<close> and \<open>numProcs\<close> are below \<open>2 ^ 24\<close>, where the float
  computation of \<open>nbRows\<close> is exact.
\<close>

theorem parallel_prim_assertion_never_fires:
  assumes g: "graph_ok N G" and c: "connected N G"
    and p: "1 \<le> numProcs" and p24: "numProcs < 2 ^ 24"
    and t: "nat (N - 1) \<le> length tree"
  shows "\<exists>tree'. parallel_prim numProcs
                   (map (row_block G (nat N) (nat (ceil_div N numProcs))) [0..<nat numProcs])
                   N tree = Some tree'
           \<and> length tree' = length tree"
proof -
  define n where "n = nat N"
  define p where "p = nat numProcs"
  define b where "b = nat (ceil_div N numProcs)"
  from g have N1: "1 \<le> N" and NN: "N * N \<le> 2 ^ 31" by (simp_all add: graph_ok_def)
  then have N: "N = int n" and n0: "0 < n" by (simp_all add: n_def)
  have P: "numProcs = int p" using p by (simp add: p_def)
  from ceil_div_cover [of N numProcs] N1 p have
    cd: "0 \<le> ceil_div N numProcs" "N \<le> ceil_div N numProcs * numProcs"
      "ceil_div N numProcs * numProcs \<le> N + numProcs - 1" "ceil_div N numProcs \<le> N"
    by simp_all
  then have B: "ceil_div N numProcs = int b" by (simp add: b_def)
  from cd(2) have "N \<le> int b * numProcs" by (simp only: B)
  then have "N \<le> int b * int p" by (simp only: P [symmetric])
  then have "int n \<le> int (b * p)" unfolding N by simp
  then have cover: "n \<le> b * p" by (simp only: of_nat_le_iff)
  have pb: "p * b \<le> 2 ^ 31"
  proof -
    have "int b * numProcs \<le> N + numProcs - 1" using cd(3) by (simp only: B)
    moreover have "N \<le> 46340"
    proof (rule ccontr)
      assume "\<not> N \<le> 46340"
      then have "46341 \<le> N" by simp
      then have "46341 * 46341 \<le> N * N" by (intro mult_mono) simp_all
      with NN show False by simp
    qed
    ultimately have "int b * numProcs \<le> 2 ^ 31" using p24 by simp
    then have "int (p * b) \<le> int (2 ^ 31)" by (simp add: P mult.commute)
    then show ?thesis by (simp only: of_nat_le_iff)
  qed
  have bn: "b * n \<le> 2 ^ 31"
  proof -
    have "int b \<le> N" using cd(4) by (simp only: B)
    then have "int b \<le> int n" by (simp only: N)
    then have "int b * int n \<le> int n * int n" by (intro mult_right_mono) simp_all
    with NN have "int (b * n) \<le> int (2 ^ 31)" unfolding N by simp
    then show ?thesis by (simp only: of_nat_le_iff)
  qed
  from g have len: "length G = n * n" by (simp add: graph_ok_def n_def)
  let ?V = "(replicate n (0::int))[0 := 1]"
  let ?adjs = "map (row_block G n b) [0..<p]"
  let ?C = "\<lambda>r. create_border (int r) (int b) (replicate n 0) (int n) (?adjs ! r)"
  have rb: "(r + 1) * b \<le> 2 ^ 31" if "r < p" for r
  proof -
    have "(r + 1) * b \<le> p * b" using that by (intro mult_le_mono1) simp
    with pb show ?thesis by linarith
  qed
  have c1: "\<exists>border. ?C r = Some (border, ?V) \<and> border_ok G n b ?V r border" if "r < p" for r
    using create_border_correct [OF len n0 rb [OF that] bn] that by simp
  then have "\<forall>r < p. \<exists>st. ?C r = Some st" by blast
  from those_upt [of p ?C, OF this] obtain states where
    th: "those (map ?C [0..<p]) = Some states" and ls: "length states = p"
    and sc: "\<forall>r < p. ?C r = Some (states ! r)"
    by blast
  have "snd (states ! r) = ?V \<and> border_ok G n b ?V r (fst (states ! r))" if "r < p" for r
    using c1 [OF that] sc that by auto
  then have inv: "par_inv G n b p states ?V" using ls by (simp add: par_inv_def)
  have v0: "?V ! 0 \<noteq> 0" using n0 by simp
  have "visited ?V = Suc (visited (replicate n 0))" using n0 by (intro visited_mark) simp_all
  then have vis: "visited ?V = Suc 0" by (simp add: visited_replicate)
  have t': "n - 1 \<le> length tree" using t N by simp
  from g c have g': "graph_ok (int n) G" and c': "connected (int n) G" unfolding N by simp_all
  from parallel_prim_loop_correct [OF g' c' cover pb bn inv v0 vis t'] obtain tree' where
    h: "parallel_prim_loop (int p) ?adjs (int n) states (int b) tree (int 0) = Some tree'"
      "length tree' = length tree"
    by blast
  have p0: "0 < p" using p by (simp add: p_def)
  have "parallel_prim (int p) ?adjs (int n) tree = Some tree'"
    using h(1) th p0 unfolding parallel_prim_def B [unfolded N P]
    by (simp add: Let_def del: of_nat_Suc)
  then have "parallel_prim numProcs ?adjs N tree = Some tree'" by (simp only: N P)
  then have "parallel_prim numProcs
      (map (row_block G (nat N) (nat (ceil_div N numProcs))) [0..<nat numProcs]) N tree
      = Some tree'"
    by (simp only: n_def p_def b_def)
  with h(2) show ?thesis by simp
qed

theorem parallel_prim_assertion_never_fires_witness:
  "graph_ok 4 [0, 1, 4, 0, 1, 0, 2, 5, 4, 2, 0, 3, 0, 5, 3, 0]
   \<and> connected 4 [0, 1, 4, 0, 1, 0, 2, 5, 4, 2, 0, 3, 0, 5, 3, 0]
   \<and> (1::int) \<le> 2 \<and> (2::int) < 2 ^ 24
   \<and> nat (4 - 1) \<le> length (calloc_edges 3)
   \<and> map (row_block [0, 1, 4, 0, 1, 0, 2, 5, 4, 2, 0, 3, 0, 5, 3, 0] (nat 4) (nat (ceil_div 4 2)))
         [0..<nat 2]
       = [[0, 1, 4, 0, 1, 0, 2, 5], [4, 2, 0, 3, 0, 5, 3, 0]]
   \<and> parallel_prim 2 [[0, 1, 4, 0, 1, 0, 2, 5], [4, 2, 0, 3, 0, 5, 3, 0]] 4 (calloc_edges 3)
       = Some [\<lparr>ei = 0, ej = 1, ew = 1\<rparr>, \<lparr>ei = 1, ej = 2, ew = 2\<rparr>, \<lparr>ei = 2, ej = 3, ew = 3\<rparr>]
   \<and> length [\<lparr>ei = 0, ej = 1, ew = 1\<rparr>, \<lparr>ei = 1, ej = 2, ew = 2\<rparr>, \<lparr>ei = 2, ej = 3, ew = 3\<rparr>]
       = length (calloc_edges 3)"
proof -
  let ?G = "[0, 1, 4, 0, 1, 0, 2, 5, 4, 2, 0, 3, 0, 5, 3, 0 :: int]"
  let ?adjs = "[[0, 1, 4, 0, 1, 0, 2, 5], [4, 2, 0, 3, 0, 5, 3, 0 :: int]]"
  have h3: "(1::int) \<le> 2" and h4: "(2::int) < 2 ^ 24" by simp_all
  have h5: "nat (4 - 1) \<le> length (calloc_edges 3)" by (simp add: calloc_edges_def)
  have blocks: "map (row_block ?G (nat 4) (nat (ceil_div 4 2))) [0..<nat 2] = ?adjs"
    by code_simp
  have run: "parallel_prim 2 ?adjs 4 (calloc_edges 3)
      = Some [\<lparr>ei = 0, ej = 1, ew = 1\<rparr>, \<lparr>ei = 1, ej = 2, ew = 2\<rparr>, \<lparr>ei = 2, ej = 3, ew = 3\<rparr>]"
    by code_simp
  from parallel_prim_assertion_never_fires [OF sample_graph_ok sample_connected h3 h4 h5] run
  have "length [\<lparr>ei = 0, ej = 1, ew = 1\<rparr>, \<lparr>ei = 1, ej = 2, ew = 2\<rparr>, \<lparr>ei = 2, ej = 3, ew = 3\<rparr>]
       = length (calloc_edges 3)"
    unfolding blocks by auto
  with sample_graph_ok sample_connected h3 h4 h5 blocks run show ?thesis by blast
qed

text \<open>
  When every rank holds the whole matrix, as the specification has it, rank 1 reads the rows
  0 and 1 for its vertices 2 and 3. On the connected path \<open>1 - 3 - 2 - 0\<close> (all weights 1) with
  two ranks, no border entry is set by \<open>create_border\<close>, both ranks contribute the sentinel in
  the first iteration, and the assertion of \<open>select_new_vertex\<close> fails.
\<close>

lemma path_graph_ok: "graph_ok 4 [0, 0, 1, 0, 0, 0, 0, 1, 1, 0, 0, 1, 0, 1, 1, 0]"
proof -
  have n: "nat 4 = Suc (Suc (Suc (Suc 0)))" by simp
  show ?thesis unfolding graph_ok_def n by (simp add: All_less_Suc)
qed

lemma path_connected: "connected 4 [0, 0, 1, 0, 0, 0, 0, 1, 1, 0, 0, 1, 0, 1, 1, 0]"
proof -
  let ?A = "adjacent [0, 0, 1, 0, 0, 0, 0, 1, 1, 0, 0, 1, 0, 1, 1, 0] (nat 4)"
  have e: "(0, 2) \<in> ?A" "(2, 3) \<in> ?A" "(3, 1) \<in> ?A" by (simp_all add: adjacent_def)
  have r0: "(0, 0) \<in> ?A\<^sup>*" by simp
  from r0 e(1) have r2: "(0, 2) \<in> ?A\<^sup>*" by (rule rtrancl_into_rtrancl)
  from r2 e(2) have r3: "(0, 3) \<in> ?A\<^sup>*" by (rule rtrancl_into_rtrancl)
  from r3 e(3) have r1: "(0, 1) \<in> ?A\<^sup>*" by (rule rtrancl_into_rtrancl)
  have n: "nat 4 = Suc (Suc (Suc (Suc 0)))" by simp
  have "\<forall>v < Suc (Suc (Suc (Suc 0))). (0, v) \<in> ?A\<^sup>*"
    using r0 r1 r2 r3 by (simp add: All_less_Suc numeral_2_eq_2 numeral_3_eq_3)
  then show ?thesis unfolding connected_def by (simp only: n)
qed

theorem parallel_prim_whole_matrix_counterexample:
  "graph_ok 4 [0, 0, 1, 0, 0, 0, 0, 1, 1, 0, 0, 1, 0, 1, 1, 0]
   \<and> connected 4 [0, 0, 1, 0, 0, 0, 0, 1, 1, 0, 0, 1, 0, 1, 1, 0]
   \<and> create_border 0 2 (replicate 4 0) 4 [0, 0, 1, 0, 0, 0, 0, 1, 1, 0, 0, 1, 0, 1, 1, 0]
       = Some ([\<lparr>bw = 0, bz = 0\<rparr>, \<lparr>bw = 0, bz = 0\<rparr>], [1, 0, 0, 0])
   \<and> create_border 1 2 (replicate 4 0) 4 [0, 0, 1, 0, 0, 0, 0, 1, 1, 0, 0, 1, 0, 1, 1, 0]
       = Some ([\<lparr>bw = 0, bz = 0\<rparr>, \<lparr>bw = 0, bz = 0\<rparr>], [1, 0, 0, 0])
   \<and> find_closest_border 0 [\<lparr>bw = 0, bz = 0\<rparr>, \<lparr>bw = 0, bz = 0\<rparr>] [1, 0, 0, 0] 4 2 = Some (- 1)
   \<and> find_closest_border 1 [\<lparr>bw = 0, bz = 0\<rparr>, \<lparr>bw = 0, bz = 0\<rparr>] [1, 0, 0, 0] 4 2 = Some (- 1)
   \<and> select_new_vertex 0 2
         (MPI_Gather [[Some (- 1), None, None], [Some (- 1), None, None]]) zero_edge = None
   \<and> parallel_prim 2 [[0, 0, 1, 0, 0, 0, 0, 1, 1, 0, 0, 1, 0, 1, 1, 0],
                       [0, 0, 1, 0, 0, 0, 0, 1, 1, 0, 0, 1, 0, 1, 1, 0]] 4 (calloc_edges 3)
       = None"
proof -
  let ?G = "[0, 0, 1, 0, 0, 0, 0, 1, 1, 0, 0, 1, 0, 1, 1, 0 :: int]"
  let ?B = "[\<lparr>bw = 0, bz = 0\<rparr>, \<lparr>bw = 0, bz = 0\<rparr>]"
  have "create_border 0 2 (replicate 4 0) 4 ?G = Some (?B, [1, 0, 0, 0])" by code_simp
  moreover have "create_border 1 2 (replicate 4 0) 4 ?G = Some (?B, [1, 0, 0, 0])" by code_simp
  moreover have "find_closest_border 0 ?B [1, 0, 0, 0] 4 2 = Some (- 1)" by code_simp
  moreover have "find_closest_border 1 ?B [1, 0, 0, 0] 4 2 = Some (- 1)" by code_simp
  moreover have "select_new_vertex 0 2
      (MPI_Gather [[Some (- 1), None, None], [Some (- 1), None, None]]) zero_edge = None"
    by code_simp
  moreover have "parallel_prim 2 [?G, ?G] 4 (calloc_edges 3) = None" by code_simp
  ultimately show ?thesis using path_graph_ok path_connected by simp
qed

section \<open>The edge wire codec: round trip\<close>

lemma length_wire: "length (wire es) = 3 * length es"
  by (induction es) (simp_all add: wire_def)

lemma wire_snoc: "wire (es @ [e]) = wire es @ [ei e, ej e, ew e]"
  by (simp add: wire_def)

lemma wire_nth:
  "k < length es \<Longrightarrow>
     wire es ! (k * 3) = ei (es ! k) \<and> wire es ! (k * 3 + 1) = ej (es ! k)
     \<and> wire es ! (k * 3 + 2) = ew (es ! k)"
proof (induction es arbitrary: k)
  case Nil
  then show ?case by simp
next
  case (Cons e es)
  show ?case
  proof (cases k)
    case 0
    then show ?thesis by (simp add: wire_def)
  next
    case (Suc k')
    with Cons.prems have "k' < length es" by simp
    from Cons.IH [OF this] Suc show ?thesis by (simp add: wire_def)
  qed
qed

lemma update3:
  "3 \<le> length rest \<Longrightarrow> length xs = n \<Longrightarrow>
     (xs @ rest)[n := a, n + 1 := b, n + 2 := c] = xs @ [a, b, c] @ drop 3 rest"
proof -
  assume l: "3 \<le> length rest" and n: "length xs = n"
  then obtain x y z r where rest: "rest = x # y # z # r"
    by (cases rest; cases "tl rest"; cases "tl (tl rest)") auto
  show ?thesis using n by (simp add: rest list_update_append)
qed

lemma send_edges_fill_result:
  assumes "0 \<le> i" "i \<le> n" "nat n \<le> length edges"
    and "buf = wire (take (nat i) edges) @ rest" "length rest = 3 * nat (n - i)"
  shows "send_edges_fill edges n i buf = Some (wire (take (nat n) edges))"
  using assms
proof (induction edges n i buf arbitrary: rest rule: send_edges_fill.induct)
  case (1 edges nbEdges i buf)
  show ?case
  proof (cases "i < nbEdges")
    case False
    with 1 have "i = nbEdges" "rest = []" by auto
    with "1.prems" show ?thesis by (subst send_edges_fill.simps) simp
  next
    case True
    let ?e = "edges ! nat i"
    have lt: "nat i < length edges" using True "1.prems" by linarith
    have len: "length (wire (take (nat i) edges)) = nat (i * 3)"
      using lt "1.prems"(1) by (simp add: length_wire nat_mult_distrib)
    have tl3: "3 \<le> length rest" using True "1.prems" by simp
    have idx: "nat (i * 3 + 1) = nat (i * 3) + 1" "nat (i * 3 + 2) = nat (i * 3) + 2"
      using "1.prems"(1) by (simp_all add: nat_add_distrib)
    have upd: "buf[nat (i * 3) := ei ?e, nat (i * 3 + 1) := ej ?e, nat (i * 3 + 2) := ew ?e]
        = wire (take (nat (i + 1)) edges) @ drop 3 rest"
    proof -
      have "take (nat (i + 1)) edges = take (nat i) edges @ [?e]"
        using lt "1.prems"(1) by (simp add: nat_add_distrib take_Suc_conv_app_nth)
      then show ?thesis
        unfolding idx "1.prems"(4) using update3 [OF tl3 len] by (simp add: wire_snoc)
    qed
    have bnd: "nat (i * 3 + 2) < length buf"
      using tl3 len unfolding idx "1.prems"(4) by simp
    have "send_edges_fill edges nbEdges i buf
        = send_edges_fill edges nbEdges (i + 1)
            (buf[nat (i * 3) := ei ?e, nat (i * 3 + 1) := ej ?e, nat (i * 3 + 2) := ew ?e])"
      using True lt bnd "1.prems"(1) by (subst send_edges_fill.simps) simp
    also have "\<dots> = Some (wire (take (nat nbEdges) edges))"
    proof (rule "1.IH" [OF True _ _ _ _ _ ])
      show "0 \<le> i \<and> nat i < length edges \<and> nat (i * 3 + 2) < length buf"
        using lt bnd "1.prems"(1) by simp
      show "0 \<le> i + 1" "i + 1 \<le> nbEdges" "nat nbEdges \<le> length edges"
        using True "1.prems" by simp_all
      show "buf[nat (i * 3) := ei (edges ! nat i), nat (i * 3 + 1) := ej (edges ! nat i),
             nat (i * 3 + 2) := ew (edges ! nat i)]
          = wire (take (nat (i + 1)) edges) @ drop 3 rest"
        using upd by simp
      show "length (drop 3 rest) = 3 * nat (nbEdges - (i + 1))"
      proof -
        have "nat (nbEdges - i) = nat (nbEdges - (i + 1)) + 1"
          using True by linarith
        then show ?thesis using "1.prems"(5) by simp
      qed
    qed
    finally show ?thesis .
  qed
qed

lemma receive_edges_fill_result:
  assumes "0 \<le> i" "i \<le> n" "n = int (length es)" "length es \<le> length edges0"
    and "edges = take (nat i) es @ drop (nat i) edges0"
  shows "receive_edges_fill (wire es) n i edges = Some (es @ drop (length es) edges0)"
  using assms
proof (induction "wire es" n i edges rule: receive_edges_fill.induct)
  case (1 nbEdges i edges)
  show ?case
  proof (cases "i < nbEdges")
    case False
    with 1 have "nat i = length es" by auto
    with "1.prems" False show ?thesis by (subst receive_edges_fill.simps) simp
  next
    case True
    have lt: "nat i < length es" using True "1.prems" by linarith
    have i3: "nat (i * 3) = nat i * 3" "nat (i * 3 + 1) = nat i * 3 + 1"
      "nat (i * 3 + 2) = nat i * 3 + 2"
      using "1.prems"(1) by (simp_all add: nat_add_distrib nat_mult_distrib)
    have e: "\<lparr>ei = wire es ! nat (i * 3), ej = wire es ! nat (i * 3 + 1),
              ew = wire es ! nat (i * 3 + 2)\<rparr> = es ! nat i"
      unfolding i3 using wire_nth [OF lt] by simp
    have bnd: "nat i < length edges" "nat (i * 3 + 2) < length (wire es)"
      using lt "1.prems"(4,5) unfolding i3 by (simp_all add: length_wire)
    have upd: "edges[nat i := es ! nat i] = take (nat (i + 1)) es @ drop (nat (i + 1)) edges0"
    proof -
      have l: "length (take (nat i) es) = nat i" using lt by simp
      have d: "drop (nat i) edges0 = edges0 ! nat i # drop (nat (i + 1)) edges0"
        using lt "1.prems"(1,4) by (simp add: nat_add_distrib Cons_nth_drop_Suc)
      have t: "take (nat (i + 1)) es = take (nat i) es @ [es ! nat i]"
        using lt "1.prems"(1) by (simp add: nat_add_distrib take_Suc_conv_app_nth)
      have "(take (nat i) es @ drop (nat i) edges0)[nat i := es ! nat i]
          = take (nat i) es @ (drop (nat i) edges0)[0 := es ! nat i]"
        using l by (simp add: list_update_append)
      then show ?thesis
        unfolding "1.prems"(5) t by (simp add: d)
    qed
    let ?r = "\<lparr>ei = wire es ! nat (i * 3), ej = wire es ! nat (i * 3 + 1),
              ew = wire es ! nat (i * 3 + 2)\<rparr>"
    have "receive_edges_fill (wire es) nbEdges i edges
        = receive_edges_fill (wire es) nbEdges (i + 1) (edges[nat i := ?r])"
      using True bnd "1.prems"(1) by (subst receive_edges_fill.simps) simp
    also have "\<dots> = Some (es @ drop (length es) edges0)"
    proof (rule "1.hyps" [OF True])
      show "0 \<le> i \<and> nat i < length edges \<and> nat (i * 3 + 2) < length (wire es)"
        using bnd "1.prems"(1) by simp
      show "0 \<le> i + 1" "i + 1 \<le> nbEdges" "nbEdges = int (length es)"
        "length es \<le> length edges0"
        using True "1.prems" by simp_all
      show "edges[nat i := ?r] = take (nat (i + 1)) es @ drop (nat (i + 1)) edges0"
        using upd e by simp
    qed
    finally show ?thesis .
  qed
qed

lemma send_edges_to_messages:
  assumes "0 \<le> nbEdges" and "nat nbEdges \<le> length edges"
  shows "send_edges_to target edges nbEdges
      = Some [\<lparr>dest = target, tag = 0, payload = [nbEdges]\<rparr>,
              \<lparr>dest = target, tag = 0, payload = wire (take (nat nbEdges) edges)\<rparr>]"
proof -
  let ?es = "take (nat nbEdges) edges"
  have fill: "send_edges_fill edges nbEdges 0 (replicate (nat (nbEdges * 3)) 0)
      = Some (wire ?es)"
    by (rule send_edges_fill_result [where rest = "replicate (nat (nbEdges * 3)) 0"])
       (use assms in \<open>simp_all add: wire_def nat_mult_distrib min_def\<close>)
  have lw: "length (wire ?es) = nat (nbEdges * 3)"
    using assms by (simp add: length_wire nat_mult_distrib)
  show ?thesis
    using assms(1) lw by (simp add: send_edges_to_def fill MPI_Send_def)
qed

lemma receive_edges_from_messages:
  assumes "length es \<le> length buf"
  shows "receive_edges_from stepSize source buf
        (\<lparr>dest = t1, tag = 0, payload = [int (length es)]\<rparr>
           # \<lparr>dest = t2, tag = 0, payload = wire es\<rparr> # inbox)
      = Some (int (length es), es @ drop (length es) buf, inbox)"
proof -
  have lw: "length (wire es) = nat (int (length es) * 3)"
    by (simp add: length_wire nat_mult_distrib)
  have dec: "receive_edges_fill (wire es) (int (length es)) 0 buf
      = Some (es @ drop (length es) buf)"
  proof (rule receive_edges_fill_result)
    show "length es \<le> length buf" by (rule assms)
    show "buf = take (nat 0) es @ drop (nat 0) buf" by simp
  qed simp_all
  show ?thesis
    using lw dec by (simp add: receive_edges_from_def MPI_Recv_def)
qed

text \<open>
  Claim C8. Sending the first \<open>nbEdges\<close> edges of an array with \<open>send_edges_to\<close> gives two
  messages with tag 0, the count and then the flat buffer of \<open>3 * nbEdges\<close> ints
  \<open>[i, j, w, ...]\<close>; \<open>receive_edges_from\<close> on these messages returns the same count and
  writes the same edges, in the same order, to the front of its buffer.
\<close>

theorem edge_wire_codec_roundtrip:
  assumes "0 \<le> nbEdges" and "nat nbEdges \<le> length edges" and "nat nbEdges \<le> length buf"
  shows "\<exists>m1 m2.
      send_edges_to target edges nbEdges = Some [m1, m2]
      \<and> m1 = \<lparr>dest = target, tag = 0, payload = [nbEdges]\<rparr>
      \<and> m2 = \<lparr>dest = target, tag = 0, payload = wire (take (nat nbEdges) edges)\<rparr>
      \<and> length (payload m2) = 3 * nat nbEdges
      \<and> receive_edges_from stepSize source buf ([m1, m2] @ inbox)
          = Some (nbEdges, take (nat nbEdges) edges @ drop (nat nbEdges) buf, inbox)"
proof -
  let ?es = "take (nat nbEdges) edges"
  have len: "length ?es = nat nbEdges" using assms(2) by simp
  then have n: "int (length ?es) = nbEdges" using assms(1) by simp
  have snd: "send_edges_to target edges nbEdges
      = Some [\<lparr>dest = target, tag = 0, payload = [nbEdges]\<rparr>,
              \<lparr>dest = target, tag = 0, payload = wire ?es\<rparr>]"
    using assms(1,2) by (rule send_edges_to_messages)
  have "length ?es \<le> length buf" using assms(3) len by simp
  from receive_edges_from_messages [OF this, of stepSize source target target inbox]
  have rcv: "receive_edges_from stepSize source buf
        ([\<lparr>dest = target, tag = 0, payload = [nbEdges]\<rparr>,
          \<lparr>dest = target, tag = 0, payload = wire ?es\<rparr>] @ inbox)
      = Some (nbEdges, ?es @ drop (nat nbEdges) buf, inbox)"
    using assms(1) len by simp
  show ?thesis
    using snd rcv len by (simp add: length_wire)
qed

theorem edge_wire_codec_roundtrip_witness:
  "(0::int) \<le> 2
   \<and> nat 2 \<le> length [\<lparr>ei = 0, ej = 1, ew = 7\<rparr>, \<lparr>ei = 1, ej = 2, ew = 5\<rparr>]
   \<and> nat 2 \<le> length [\<lparr>ei = 9, ej = 9, ew = 9\<rparr>, \<lparr>ei = 9, ej = 9, ew = 9\<rparr>, \<lparr>ei = 9, ej = 9, ew = 9\<rparr>]
   \<and> send_edges_to 3 [\<lparr>ei = 0, ej = 1, ew = 7\<rparr>, \<lparr>ei = 1, ej = 2, ew = 5\<rparr>] 2
       = Some [\<lparr>dest = 3, tag = 0, payload = [2]\<rparr>,
               \<lparr>dest = 3, tag = 0, payload = [0, 1, 7, 1, 2, 5]\<rparr>]
   \<and> receive_edges_from 1 5
         [\<lparr>ei = 9, ej = 9, ew = 9\<rparr>, \<lparr>ei = 9, ej = 9, ew = 9\<rparr>, \<lparr>ei = 9, ej = 9, ew = 9\<rparr>]
         [\<lparr>dest = 3, tag = 0, payload = [2]\<rparr>,
          \<lparr>dest = 3, tag = 0, payload = [0, 1, 7, 1, 2, 5]\<rparr>]
       = Some (2, [\<lparr>ei = 0, ej = 1, ew = 7\<rparr>, \<lparr>ei = 1, ej = 2, ew = 5\<rparr>,
                   \<lparr>ei = 9, ej = 9, ew = 9\<rparr>], [])"
  using edge_wire_codec_roundtrip [of 2 "[\<lparr>ei = 0, ej = 1, ew = 7\<rparr>, \<lparr>ei = 1, ej = 2, ew = 5\<rparr>]"
      "[\<lparr>ei = 9, ej = 9, ew = 9\<rparr>, \<lparr>ei = 9, ej = 9, ew = 9\<rparr>, \<lparr>ei = 9, ej = 9, ew = 9\<rparr>]" 3 1 5 "[]"]
  by (simp add: wire_def)

end
